theory Spec2Isabelle
  imports Main "HOL-Library.Multiset"
begin

section \<open>Minesweeper board: the data model of components.py\<close>

text \<open>
  Python integers are unbounded, so every coordinate and counter is an \<open>int\<close>.
  The three classes \<^verbatim>\<open>CellState\<close>, \<^verbatim>\<open>Cell\<close> and \<^verbatim>\<open>Board\<close> become records with the
  fields of their constructors. A method that mutates the board takes the board and
  returns the new one. The only exception the code can raise is the \<^verbatim>\<open>IndexError\<close>
  of a list access, so a method that indexes \<^verbatim>\<open>self.cells\<close> returns an
  \<open>option\<close>, with \<open>None\<close> for the raised \<^verbatim>\<open>IndexError\<close>.
\<close>

record cell_state =
  is_mine :: bool
  is_revealed :: bool
  is_flagged :: bool
  adjacent :: int

record cell =
  col :: int
  row :: int
  state :: cell_state

record board =
  cols :: int
  rows :: int
  num_mines :: int
  cells :: "cell list"
  mines_placed :: bool
  revealed_count :: int
  game_over :: bool
  win :: bool

text \<open>\<^verbatim>\<open>CellState()\<close> and \<^verbatim>\<open>Cell(col, row)\<close> with their default arguments.\<close>

definition CellState :: cell_state where
  "CellState = \<lparr>is_mine = False, is_revealed = False, is_flagged = False, adjacent = 0\<rparr>"

definition Cell :: "int \<Rightarrow> int \<Rightarrow> cell" where
  "Cell c r = \<lparr>col = c, row = r, state = CellState\<rparr>"

text \<open>\<^verbatim>\<open>range(n)\<close> is \<open>[0, 1, ..., n - 1]\<close>, empty when \<open>n \<le> 0\<close>.\<close>

definition py_range :: "int \<Rightarrow> int list" where
  "py_range n = [0..n - 1]"

text \<open>
  The comprehension \<^verbatim>\<open>[(c, r) for r in range(rows) for c in range(cols)]\<close>: the
  coordinates in row-major order. The constructor and \<^verbatim>\<open>place_mines\<close> both build it,
  and the nested loops of \<^verbatim>\<open>place_mines\<close> (\<^verbatim>\<open>for r ...: for c ...\<close>) run through the
  same sequence.
\<close>

definition positions :: "int \<Rightarrow> int \<Rightarrow> (int \<times> int) list" where
  "positions w h = concat (map (\<lambda>r. map (\<lambda>c. (c, r)) (py_range w)) (py_range h))"

text \<open>
  \<^verbatim>\<open>Board.__init__\<close> performs no check of its arguments and cannot raise; the
  result is an \<open>option\<close> only so that a failing construction could be expressed.
\<close>

definition Board :: "int \<Rightarrow> int \<Rightarrow> int \<Rightarrow> board option" where
  "Board w h mines =
     Some \<lparr>cols = w, rows = h, num_mines = mines,
           cells = map (\<lambda>(c, r). Cell c r) (positions w h),
           mines_placed = False, revealed_count = 0, game_over = False, win = False\<rparr>"

definition index :: "board \<Rightarrow> int \<Rightarrow> int \<Rightarrow> int" where
  "index b c r = r * cols b + c"

definition is_inbounds :: "board \<Rightarrow> int \<Rightarrow> int \<Rightarrow> bool" where
  "is_inbounds b c r \<longleftrightarrow> 0 \<le> c \<and> c < cols b \<and> 0 \<le> r \<and> r < rows b"

definition deltas :: "(int \<times> int) list" where
  "deltas = [(-1, -1), (0, -1), (1, -1), (-1, 0), (1, 0), (-1, 1), (0, 1), (1, 1)]"

definition neighbors :: "board \<Rightarrow> int \<Rightarrow> int \<Rightarrow> (int \<times> int) list" where
  "neighbors b c r =
     filter (\<lambda>(nc, nr). is_inbounds b nc nr) (map (\<lambda>(dc, dr). (c + dc, r + dr)) deltas)"

subsection \<open>List access as Python does it\<close>

text \<open>
  \<^verbatim>\<open>xs[i]\<close> counts a negative \<open>i\<close> from the end of the list and raises
  \<^verbatim>\<open>IndexError\<close> outside \<open>[-len, len)\<close>. \<open>py_index\<close> gives the position that is
  read or written, \<open>None\<close> for the exception.
\<close>

definition py_index :: "'a list \<Rightarrow> int \<Rightarrow> nat option" where
  "py_index xs i =
     (let n = int (length xs) in
      if 0 \<le> i \<and> i < n then Some (nat i)
      else if - n \<le> i \<and> i < 0 then Some (nat (n + i))
      else None)"

text \<open>\<^verbatim>\<open>self.cells[idx]\<close>, read.\<close>

definition cell_at :: "board \<Rightarrow> int \<Rightarrow> cell option" where
  "cell_at b idx = (case py_index (cells b) idx of None \<Rightarrow> None | Some k \<Rightarrow> Some (cells b ! k))"

text \<open>
  \<^verbatim>\<open>self.cells[idx].state.<field> = v\<close>: the state of one cell is replaced. Every
  \<^verbatim>\<open>Cell\<close> owns its own \<^verbatim>\<open>CellState\<close> object, so no other cell changes.
\<close>

definition update_state :: "board \<Rightarrow> int \<Rightarrow> (cell_state \<Rightarrow> cell_state) \<Rightarrow> board option" where
  "update_state b idx f =
     (case py_index (cells b) idx of
        None \<Rightarrow> None
      | Some k \<Rightarrow> Some (b\<lparr>cells := (cells b)[k := (cells b ! k)\<lparr>state := f (state (cells b ! k))\<rparr>]\<rparr>))"

text \<open>
  The slice \<^verbatim>\<open>xs[:n]\<close>: the first \<open>n\<close> elements, and for a negative \<open>n\<close> all but
  the last \<open>-n\<close>.
\<close>

definition py_slice_to :: "'a list \<Rightarrow> int \<Rightarrow> 'a list" where
  "py_slice_to xs n = (if 0 \<le> n then take (nat n) xs else take (nat (int (length xs) + n)) xs)"

subsection \<open>Mine placement\<close>

text \<open>The loop \<^verbatim>\<open>for col, row in mine_positions: self.cells[idx].state.is_mine = True\<close>.\<close>

fun mark_mines :: "board \<Rightarrow> (int \<times> int) list \<Rightarrow> board option" where
  "mark_mines b [] = Some b"
| "mark_mines b ((c, r) # ps) =
     (case update_state b (index b c r) (\<lambda>s. s\<lparr>is_mine := True\<rparr>) of
        None \<Rightarrow> None
      | Some b' \<Rightarrow> mark_mines b' ps)"

text \<open>The inner loop over \<^verbatim>\<open>self.neighbors(c, r)\<close> that counts the mines, from \<open>acc\<close>.\<close>

fun count_mines :: "board \<Rightarrow> (int \<times> int) list \<Rightarrow> int \<Rightarrow> int option" where
  "count_mines b [] acc = Some acc"
| "count_mines b ((nc, nr) # ps) acc =
     (case cell_at b (index b nc nr) of
        None \<Rightarrow> None
      | Some n \<Rightarrow> count_mines b ps (if is_mine (state n) then acc + 1 else acc))"

text \<open>The loops over every \<open>(c, r)\<close> that store \<^verbatim>\<open>adjacent\<close> in the cells without a mine.\<close>

fun compute_adjacent :: "board \<Rightarrow> (int \<times> int) list \<Rightarrow> board option" where
  "compute_adjacent b [] = Some b"
| "compute_adjacent b ((c, r) # ps) =
     (case cell_at b (index b c r) of
        None \<Rightarrow> None
      | Some cl \<Rightarrow>
          if \<not> is_mine (state cl) then
            (case count_mines b (neighbors b c r) 0 of
               None \<Rightarrow> None
             | Some adjacent_mines \<Rightarrow>
                 (case update_state b (index b c r) (\<lambda>s. s\<lparr>adjacent := adjacent_mines\<rparr>) of
                    None \<Rightarrow> None
                  | Some b' \<Rightarrow> compute_adjacent b' ps))
          else compute_adjacent b ps)"

text \<open>
  \<^verbatim>\<open>place_mines\<close>. \<^verbatim>\<open>random.shuffle(pool)\<close> is the one source of randomness; the
  permutation it produces is the parameter \<open>shuffle\<close>, and \<open>is_shuffle\<close> says what
  the library guarantees of it: the result is a rearrangement of the argument.
\<close>

definition is_shuffle :: "((int \<times> int) list \<Rightarrow> (int \<times> int) list) \<Rightarrow> bool" where
  "is_shuffle shuffle \<longleftrightarrow> (\<forall>xs. mset (shuffle xs) = mset xs)"

definition forbidden :: "board \<Rightarrow> int \<Rightarrow> int \<Rightarrow> (int \<times> int) set" where
  "forbidden b safe_col safe_row = insert (safe_col, safe_row) (set (neighbors b safe_col safe_row))"

definition pool :: "board \<Rightarrow> int \<Rightarrow> int \<Rightarrow> (int \<times> int) list" where
  "pool b safe_col safe_row =
     filter (\<lambda>p. p \<notin> forbidden b safe_col safe_row) (positions (cols b) (rows b))"

definition mine_positions ::
  "((int \<times> int) list \<Rightarrow> (int \<times> int) list) \<Rightarrow> board \<Rightarrow> int \<Rightarrow> int \<Rightarrow> (int \<times> int) list" where
  "mine_positions shuffle b safe_col safe_row =
     py_slice_to (shuffle (pool b safe_col safe_row)) (num_mines b)"

definition place_mines ::
  "((int \<times> int) list \<Rightarrow> (int \<times> int) list) \<Rightarrow> board \<Rightarrow> int \<Rightarrow> int \<Rightarrow> board option" where
  "place_mines shuffle b safe_col safe_row =
     (case mark_mines b (mine_positions shuffle b safe_col safe_row) of
        None \<Rightarrow> None
      | Some b1 \<Rightarrow>
          (case compute_adjacent b1 (positions (cols b1) (rows b1)) of
             None \<Rightarrow> None
           | Some b2 \<Rightarrow> Some (b2\<lparr>mines_placed := True\<rparr>)))"

subsection \<open>Reveal\<close>

text \<open>\<^verbatim>\<open>_reveal_all_mines\<close>: every cell with a mine becomes revealed.\<close>

definition reveal_all_mines :: "board \<Rightarrow> board" where
  "reveal_all_mines b =
     b\<lparr>cells := map (\<lambda>cl. if is_mine (state cl)
                           then cl\<lparr>state := (state cl)\<lparr>is_revealed := True\<rparr>\<rparr> else cl) (cells b)\<rparr>"

text \<open>\<^verbatim>\<open>_check_win\<close>.\<close>

definition check_win :: "board \<Rightarrow> board" where
  "check_win b =
     (let total_cells = cols b * rows b in
      if revealed_count b = total_cells - num_mines b \<and> \<not> game_over b then
        b\<lparr>win := True,
          cells := map (\<lambda>cl. if \<not> is_revealed (state cl) \<and> \<not> is_mine (state cl)
                               then cl\<lparr>state := (state cl)\<lparr>is_revealed := True\<rparr>\<rparr> else cl) (cells b)\<rparr>
      else b)"

text \<open>
  The \<^verbatim>\<open>while queue:\<close> loop of \<^verbatim>\<open>reveal\<close>, on the board, the queue (its left end is
  the head of the list) and the visited set. Every round either drops a visited
  coordinate from the queue or visits a new one, and only in-bounds coordinates are
  appended, which is why the loop ends.
\<close>

function flood :: "board \<Rightarrow> (int \<times> int) list \<Rightarrow> (int \<times> int) set \<Rightarrow> board option" where
  "flood b [] visited = Some b"
| "flood b ((c, r) # queue) visited =
     (if (c, r) \<in> visited then flood b queue visited
      else
        (case cell_at b (index b c r) of
           None \<Rightarrow> None
         | Some current_cell \<Rightarrow>
             if is_revealed (state current_cell) \<or> is_flagged (state current_cell)
             then flood b queue (insert (c, r) visited)
             else if is_mine (state current_cell)
             then flood b queue (insert (c, r) visited)
             else
               (case update_state b (index b c r) (\<lambda>s. s\<lparr>is_revealed := True\<rparr>) of
                  None \<Rightarrow> None
                | Some b1 \<Rightarrow>
                    let b2 = b1\<lparr>revealed_count := revealed_count b1 + 1\<rparr> in
                    if adjacent (state current_cell) = 0
                    then flood b2
                           (queue @ filter (\<lambda>p. p \<notin> insert (c, r) visited) (neighbors b2 c r))
                           (insert (c, r) visited)
                    else flood b2 queue (insert (c, r) visited))))"
  by pat_completeness auto

text \<open>
  \<^verbatim>\<open>reveal\<close>. The early \<^verbatim>\<open>return\<close>s give the board as it is at that point: after
  the bounds check nothing has changed, after the lazy mine placement the mines are
  placed.
\<close>

definition reveal ::
  "((int \<times> int) list \<Rightarrow> (int \<times> int) list) \<Rightarrow> board \<Rightarrow> int \<Rightarrow> int \<Rightarrow> board option" where
  "reveal shuffle b c r =
     (if \<not> is_inbounds b c r then Some b
      else
        (case (if \<not> mines_placed b then place_mines shuffle b c r else Some b) of
           None \<Rightarrow> None
         | Some b1 \<Rightarrow>
             (case cell_at b1 (index b1 c r) of
                None \<Rightarrow> None
              | Some cl \<Rightarrow>
                  if is_revealed (state cl) \<or> is_flagged (state cl) then Some b1
                  else if is_mine (state cl)
                  then Some (reveal_all_mines (b1\<lparr>game_over := True\<rparr>))
                  else
                    (case flood b1 [(c, r)] {} of
                       None \<Rightarrow> None
                     | Some b2 \<Rightarrow> Some (check_win b2)))))"

subsection \<open>Flags\<close>

text \<open>
  \<^verbatim>\<open>toggle_flag\<close> and \<^verbatim>\<open>flagged_count\<close> have the body \<^verbatim>\<open>pass\<close> (the bounds check of
  \<^verbatim>\<open>toggle_flag\<close> is commented out): the board is left as it is, and the value
  returned is Python's \<^verbatim>\<open>None\<close>. \<open>flagged_count\<close> gives the returned value
  together with the board after the call.
\<close>

datatype py_value = PyNone | PyInt int

definition toggle_flag :: "board \<Rightarrow> int \<Rightarrow> int \<Rightarrow> board" where
  "toggle_flag b c r = b"

definition flagged_count :: "board \<Rightarrow> py_value \<times> board" where
  "flagged_count b = (PyNone, b)"

section \<open>Notions used to state the properties\<close>

text \<open>The in-bounds coordinates of a board: those that \<open>is_inbounds\<close> accepts.\<close>

definition inb_set :: "board \<Rightarrow> (int \<times> int) set" where
  "inb_set b = {0..<cols b} \<times> {0..<rows b}"

text \<open>
  The constructor creates one cell for every coordinate and no method changes the
  length of \<^verbatim>\<open>cells\<close>. On such a board \<open>cell_of b (c, r)\<close> is the cell that
  \<^verbatim>\<open>self.cells[self.index(c, r)]\<close> reads for an in-bounds \<open>(c, r)\<close>.
\<close>

definition wf_board :: "board \<Rightarrow> bool" where
  "wf_board b \<longleftrightarrow> length (cells b) = nat (cols b) * nat (rows b)"

definition cell_of :: "board \<Rightarrow> int \<times> int \<Rightarrow> cell" where
  "cell_of b p = cells b ! nat (index b (fst p) (snd p))"

text \<open>What \<^verbatim>\<open>reveal\<close> never writes: the position of a cell, its mine, its flag, its count.\<close>

definition frame :: "cell \<Rightarrow> int \<times> int \<times> bool \<times> bool \<times> int" where
  "frame cl = (col cl, row cl, is_mine (state cl), is_flagged (state cl), adjacent (state cl))"

text \<open>
  The boards a caller can observe: the constructor's result, and what \<^verbatim>\<open>reveal\<close> and
  \<^verbatim>\<open>toggle_flag\<close> make of an observable board, for any outcome of the shuffle.
\<close>

inductive reachable :: "board \<Rightarrow> bool" where
  constructed: "Board w h mines = Some b \<Longrightarrow> reachable b"
| revealed: "reachable b \<Longrightarrow> is_shuffle shuffle \<Longrightarrow> reveal shuffle b c r = Some b' \<Longrightarrow> reachable b'"
| toggled: "reachable b \<Longrightarrow> reachable (toggle_flag b c r)"

text \<open>
  The tests of the flood fill that let a dequeued cell be revealed (not revealed, not
  flagged, not a mine), and the two writes that reveal it: \<^verbatim>\<open>is_revealed = True\<close> and
  \<^verbatim>\<open>revealed_count += 1\<close>.
\<close>

definition openable :: "board \<Rightarrow> int \<times> int \<Rightarrow> bool" where
  "openable b p \<longleftrightarrow>
     \<not> is_revealed (state (cell_of b p)) \<and> \<not> is_flagged (state (cell_of b p))
     \<and> \<not> is_mine (state (cell_of b p))"

definition open_cell :: "board \<Rightarrow> int \<times> int \<Rightarrow> board" where
  "open_cell b p =
     b\<lparr>cells := (cells b)[nat (index b (fst p) (snd p)) :=
                   (cell_of b p)\<lparr>state := (state (cell_of b p))\<lparr>is_revealed := True\<rparr>\<rparr>],
       revealed_count := revealed_count b + 1\<rparr>"

text \<open>
  Two boards with the same dimensions, the same mine count and the same cells up to
  \<^verbatim>\<open>is_revealed\<close>; and a board that has every revealed cell of another revealed.
\<close>

definition same_layout :: "board \<Rightarrow> board \<Rightarrow> bool" where
  "same_layout b b' \<longleftrightarrow>
     cols b' = cols b \<and> rows b' = rows b \<and> num_mines b' = num_mines b
     \<and> map frame (cells b') = map frame (cells b)"

definition revealed_mono :: "board \<Rightarrow> board \<Rightarrow> bool" where
  "revealed_mono b b' \<longleftrightarrow>
     (\<forall>i < length (cells b). is_revealed (state (cells b ! i)) \<longrightarrow> is_revealed (state (cells b' ! i)))"

text \<open>
  A board in play, used to instantiate the theorems: \<^verbatim>\<open>Board(5, 1, 1)\<close> after
  \<^verbatim>\<open>reveal(4, 0)\<close> when the shuffle reverses the pool. The mine is at (2, 0), and the
  cells (3, 0) and (4, 0) are revealed.
\<close>

definition demo_cell :: "int \<Rightarrow> bool \<Rightarrow> bool \<Rightarrow> int \<Rightarrow> cell" where
  "demo_cell c mine shown adj =
     \<lparr>col = c, row = 0,
      state = \<lparr>is_mine = mine, is_revealed = shown, is_flagged = False, adjacent = adj\<rparr>\<rparr>"

definition demo_board :: board where
  "demo_board =
     \<lparr>cols = 5, rows = 1, num_mines = 1,
      cells = [demo_cell 0 False False 0, demo_cell 1 False False 1, demo_cell 2 True False 0,
               demo_cell 3 False True 1, demo_cell 4 False True 0],
      mines_placed = True, revealed_count = 2, game_over = False, win = False\<rparr>"

text \<open>
  The write \<^verbatim>\<open>self.cells[self.index(c, r)].state.<field> = v\<close> at an in-bounds
  coordinate of a well-formed board, and the number of mines around a coordinate.
\<close>

definition set_state :: "board \<Rightarrow> int \<times> int \<Rightarrow> (cell_state \<Rightarrow> cell_state) \<Rightarrow> board" where
  "set_state b p f =
     b\<lparr>cells := (cells b)[nat (index b (fst p) (snd p)) :=
                   (cell_of b p)\<lparr>state := f (state (cell_of b p))\<rparr>]\<rparr>"

definition mine_count :: "board \<Rightarrow> int \<times> int \<Rightarrow> int" where
  "mine_count b p =
     int (length (filter (\<lambda>q. is_mine (state (cell_of b q))) (neighbors b (fst p) (snd p))))"

text \<open>A caller: a sequence of \<^verbatim>\<open>reveal\<close> and \<^verbatim>\<open>toggle_flag\<close> calls on one board.\<close>

datatype action = Reveal int int | Toggle_flag int int

fun play :: "((int \<times> int) list \<Rightarrow> (int \<times> int) list) \<Rightarrow> board \<Rightarrow> action list \<Rightarrow> board option" where
  "play shuffle b [] = Some b"
| "play shuffle b (Reveal c r # acts) =
     (case reveal shuffle b c r of None \<Rightarrow> None | Some b' \<Rightarrow> play shuffle b' acts)"
| "play shuffle b (Toggle_flag c r # acts) = play shuffle (toggle_flag b c r) acts"

text \<open>
  A caller that stops at a win: the calls of the sequence are made until \<^verbatim>\<open>win\<close> is
  observed, and the rest is dropped.
\<close>

fun play_to_win ::
  "((int \<times> int) list \<Rightarrow> (int \<times> int) list) \<Rightarrow> board \<Rightarrow> action list \<Rightarrow> board option" where
  "play_to_win shuffle b [] = Some b"
| "play_to_win shuffle b (a # acts) =
     (if win b then Some b
      else
        (case a of
           Reveal c r \<Rightarrow>
             (case reveal shuffle b c r of
                None \<Rightarrow> None
              | Some b' \<Rightarrow> play_to_win shuffle b' acts)
         | Toggle_flag c r \<Rightarrow> play_to_win shuffle (toggle_flag b c r) acts))"

text \<open>
  Facts that hold of every observable board: the cell list matches the dimensions, no
  cell is flagged (nothing ever sets a flag), a board without mines placed is as the
  constructor left it, mines are only placed on a board with a cell, and a won board
  has every cell without a mine revealed.
\<close>

definition safe_revealed :: "board \<Rightarrow> bool" where
  "safe_revealed b \<longleftrightarrow> (\<forall>cl \<in> set (cells b). \<not> is_mine (state cl) \<longrightarrow> is_revealed (state cl))"

definition basic_inv :: "board \<Rightarrow> bool" where
  "basic_inv b \<longleftrightarrow>
     wf_board b
     \<and> (\<forall>cl \<in> set (cells b). \<not> is_flagged (state cl))
     \<and> (\<not> mines_placed b \<longrightarrow>
          (\<forall>cl \<in> set (cells b). state cl = CellState) \<and> revealed_count b = 0
          \<and> \<not> game_over b \<and> \<not> win b)
     \<and> (mines_placed b \<longrightarrow> 0 < cols b \<and> 0 < rows b)
     \<and> (win b \<longrightarrow> safe_revealed b)"

text \<open>A whole game: construction followed by a sequence of calls.\<close>

definition new_game ::
  "((int \<times> int) list \<Rightarrow> (int \<times> int) list) \<Rightarrow> int \<Rightarrow> int \<Rightarrow> int \<Rightarrow> action list \<Rightarrow> board option" where
  "new_game shuffle w h mines acts =
     (case Board w h mines of None \<Rightarrow> None | Some b \<Rightarrow> play shuffle b acts)"

text \<open>
  What a flood fill reaches. A revealed cell with \<^verbatim>\<open>adjacent == 0\<close> enqueues its
  neighbours, so the fill expands through the cells that it can reveal and that have
  no mine around them. \<open>reach b S\<close> are the coordinates that enter the queue when the
  queue starts as \<open>S\<close>, and \<open>fill b S\<close> those among them that get revealed.
\<close>

definition expanding :: "board \<Rightarrow> int \<times> int \<Rightarrow> bool" where
  "expanding b p \<longleftrightarrow> openable b p \<and> adjacent (state (cell_of b p)) = 0"

inductive reach :: "board \<Rightarrow> (int \<times> int) set \<Rightarrow> int \<times> int \<Rightarrow> bool" for b S where
  start: "p \<in> S \<Longrightarrow> reach b S p"
| step: "reach b S p \<Longrightarrow> expanding b p \<Longrightarrow> q \<in> set (neighbors b (fst p) (snd p)) \<Longrightarrow> reach b S q"

definition fill :: "board \<Rightarrow> (int \<times> int) set \<Rightarrow> (int \<times> int) set" where
  "fill b S = {q. reach b S q \<and> openable b q}"

text \<open>
  The sets of the flood-fill property. A zero cell has no mine, no flag and no mine
  around it; the region of a target is what is connected to it through zero cells;
  the border of the region are the neighbours of its cells that have neither a flag
  nor a mine. \<open>newly_revealed b b'\<close> are the cells revealed in \<open>b'\<close> and not in \<open>b\<close>.
\<close>

definition zero_cell :: "board \<Rightarrow> int \<times> int \<Rightarrow> bool" where
  "zero_cell b p \<longleftrightarrow>
     adjacent (state (cell_of b p)) = 0 \<and> \<not> is_mine (state (cell_of b p))
     \<and> \<not> is_flagged (state (cell_of b p))"

inductive_set region :: "board \<Rightarrow> int \<times> int \<Rightarrow> (int \<times> int) set" for b t where
  target: "t \<in> region b t"
| grow: "p \<in> region b t \<Longrightarrow> q \<in> set (neighbors b (fst p) (snd p)) \<Longrightarrow> zero_cell b q
         \<Longrightarrow> q \<in> region b t"

definition border :: "board \<Rightarrow> int \<times> int \<Rightarrow> (int \<times> int) set" where
  "border b t =
     {q. \<exists>p \<in> region b t. q \<in> set (neighbors b (fst p) (snd p))
           \<and> \<not> is_flagged (state (cell_of b q)) \<and> \<not> is_mine (state (cell_of b q))}"

definition newly_revealed :: "board \<Rightarrow> board \<Rightarrow> (int \<times> int) set" where
  "newly_revealed b b' =
     {p \<in> inb_set b. \<not> is_revealed (state (cell_of b p)) \<and> is_revealed (state (cell_of b' p))}"

text \<open>
  Two more facts about every observable board. The counter is the number of revealed
  cells without a mine, and either the board has \<^verbatim>\<open>num_mines\<close> mines or the counter can
  never be \<open>cols * rows - num_mines\<close> (a negative mine count, or more mines asked for
  than the pool holds). And a revealed zero cell has no neighbour left to reveal.
\<close>

definition count_inv :: "board \<Rightarrow> bool" where
  "count_inv b \<longleftrightarrow>
     revealed_count b =
       int (length (filter (\<lambda>cl. is_revealed (state cl) \<and> \<not> is_mine (state cl)) (cells b)))
     \<and> (mines_placed b \<longrightarrow>
          int (length (filter (\<lambda>cl. is_mine (state cl)) (cells b))) = num_mines b
          \<or> num_mines b < 0 \<or> cols b * rows b - num_mines b < revealed_count b)"

definition closed_inv :: "board \<Rightarrow> bool" where
  "closed_inv b \<longleftrightarrow>
     (\<forall>p \<in> inb_set b. is_revealed (state (cell_of b p)) \<and> zero_cell b p \<longrightarrow>
        (\<forall>q \<in> set (neighbors b (fst p) (snd p)).
           is_revealed (state (cell_of b q)) \<or> is_mine (state (cell_of b q))
           \<or> is_flagged (state (cell_of b q))))"

text \<open>
  A second board in play: \<^verbatim>\<open>Board(10, 1, 1)\<close> after \<^verbatim>\<open>reveal(0, 0)\<close> and
  \<^verbatim>\<open>reveal(3, 0)\<close> when the shuffle leaves the pool in its order, and the same board
  after one more call, \<^verbatim>\<open>reveal(5, 0)\<close>. The mine is at (2, 0).
\<close>

definition row_board :: board where
  "row_board =
     \<lparr>cols = 10, rows = 1, num_mines = 1,
      cells = [demo_cell 0 False True 0, demo_cell 1 False True 1, demo_cell 2 True False 0,
               demo_cell 3 False True 1, demo_cell 4 False False 0, demo_cell 5 False False 0,
               demo_cell 6 False False 0, demo_cell 7 False False 0, demo_cell 8 False False 0,
               demo_cell 9 False False 0],
      mines_placed = True, revealed_count = 3, game_over = False, win = False\<rparr>"

definition row_board_after :: board where
  "row_board_after =
     \<lparr>cols = 10, rows = 1, num_mines = 1,
      cells = [demo_cell 0 False True 0, demo_cell 1 False True 1, demo_cell 2 True False 0,
               demo_cell 3 False True 1, demo_cell 4 False True 0, demo_cell 5 False True 0,
               demo_cell 6 False True 0, demo_cell 7 False True 0, demo_cell 8 False True 0,
               demo_cell 9 False True 0],
      mines_placed = True, revealed_count = 9, game_over = False, win = True\<rparr>"

text \<open>
  A board with a flag, as a working \<^verbatim>\<open>toggle_flag\<close> would leave it: the first example
  board with the cell (1, 0), next to the target (0, 0), flagged.
\<close>

definition flag_board :: board where
  "flag_board =
     \<lparr>cols = 5, rows = 1, num_mines = 1,
      cells = [demo_cell 0 False False 0,
               \<lparr>col = 1, row = 0,
                state = \<lparr>is_mine = False, is_revealed = False, is_flagged = True, adjacent = 1\<rparr>\<rparr>,
               demo_cell 2 True False 0, demo_cell 3 False True 1, demo_cell 4 False True 0],
      mines_placed = True, revealed_count = 2, game_over = False, win = False\<rparr>"

section \<open>Basic facts\<close>

subsection \<open>Coordinates and indices\<close>

lemma inb_set_iff: "(c, r) \<in> inb_set b \<longleftrightarrow> is_inbounds b c r"
  by (auto simp: inb_set_def is_inbounds_def)

lemma finite_inb_set: "finite (inb_set b)"
  by (simp add: inb_set_def)

lemma index_range:
  fixes c r w h :: int
  assumes "0 \<le> c" "c < w" "0 \<le> r" "r < h"
  shows "0 \<le> r * w + c" and "r * w + c < w * h"
proof -
  show "0 \<le> r * w + c" using assms by simp
  have "r + 1 \<le> h" using assms by simp
  then have "(r + 1) * w \<le> h * w"
    using assms by (intro mult_right_mono) auto
  moreover have "r * w + c < (r + 1) * w"
    using assms by (simp add: algebra_simps)
  ultimately show "r * w + c < w * h" by (simp add: mult.commute)
qed

lemma index_inj:
  fixes c r c' r' w :: int
  assumes "0 \<le> c" "c < w" "0 \<le> c'" "c' < w" "r * w + c = r' * w + c'"
  shows "c = c' \<and> r = r'"
proof -
  have "(r * w + c) mod w = c" "(r' * w + c') mod w = c'"
    using assms(1-4) by simp_all
  then have "c = c'" using arg_cong[OF assms(5), of "\<lambda>x. x mod w"] by simp
  then show ?thesis using assms by auto
qed

lemma inb_index:
  assumes "wf_board b" "p \<in> inb_set b"
  shows "nat (index b (fst p) (snd p)) < length (cells b)"
    and "py_index (cells b) (index b (fst p) (snd p)) = Some (nat (index b (fst p) (snd p)))"
proof -
  obtain c r where p: "p = (c, r)" by (cases p)
  have b: "0 \<le> c" "c < cols b" "0 \<le> r" "r < rows b"
    using assms p by (auto simp: inb_set_def)
  have len: "int (length (cells b)) = cols b * rows b"
    using assms b by (simp add: wf_board_def)
  from index_range[OF b] have "0 \<le> index b c r" "index b c r < int (length (cells b))"
    by (simp_all add: index_def len)
  then show "nat (index b (fst p) (snd p)) < length (cells b)"
    and "py_index (cells b) (index b (fst p) (snd p)) = Some (nat (index b (fst p) (snd p)))"
    by (simp_all add: p py_index_def)
qed

lemma index_eq_iff:
  assumes "p \<in> inb_set b" "q \<in> inb_set b"
  shows "nat (index b (fst p) (snd p)) = nat (index b (fst q) (snd q)) \<longleftrightarrow> p = q"
proof
  assume e: "nat (index b (fst p) (snd p)) = nat (index b (fst q) (snd q))"
  obtain c r c' r' where p: "p = (c, r)" and q: "q = (c', r')" by (cases p, cases q)
  have b: "0 \<le> c" "c < cols b" "0 \<le> r" "r < rows b" "0 \<le> c'" "c' < cols b" "0 \<le> r'" "r' < rows b"
    using assms p q by (auto simp: inb_set_def)
  have "0 \<le> r * cols b + c" "0 \<le> r' * cols b + c'" using b by simp_all
  with e have "r * cols b + c = r' * cols b + c'" by (simp add: p q index_def)
  from index_inj[OF b(1,2,5,6) this] show "p = q" by (simp add: p q)
qed simp

lemma cell_at_inb:
  assumes "wf_board b" "is_inbounds b c r"
  shows "cell_at b (index b c r) = Some (cell_of b (c, r))"
  using inb_index(2)[OF assms(1), of "(c, r)"] assms(2)
  by (simp add: cell_at_def cell_of_def inb_set_iff)

lemma update_state_inb:
  assumes "wf_board b" "is_inbounds b c r"
  shows "update_state b (index b c r) f =
         Some (b\<lparr>cells := (cells b)[nat (index b c r) := (cell_of b (c, r))\<lparr>state := f (state (cell_of b (c, r)))\<rparr>]\<rparr>)"
  using inb_index(2)[OF assms(1), of "(c, r)"] assms(2)
  by (simp add: update_state_def cell_of_def inb_set_iff)

subsection \<open>The coordinate list\<close>

lemma positions_product: "positions w h = map prod.swap (List.product (py_range h) (py_range w))"
  by (simp add: positions_def product_concat_map map_concat comp_def)

lemma set_positions: "set (positions w h) = {0..<w} \<times> {0..<h}"
  by (auto simp: positions_product py_range_def)

lemma distinct_positions: "distinct (positions w h)"
  by (simp add: positions_product py_range_def distinct_map distinct_product)

lemma length_positions: "length (positions w h) = nat w * nat h"
  by (simp add: positions_product py_range_def mult.commute)

lemma Board_wf: "Board w h m = Some b \<Longrightarrow> wf_board b"
  by (auto simp: Board_def wf_board_def length_positions)

subsection \<open>The flood fill ends\<close>

lemma update_state_dims:
  "update_state b idx f = Some b' \<Longrightarrow> cols b' = cols b \<and> rows b' = rows b"
  by (auto simp: update_state_def split: option.splits)

lemma set_neighbors_inb: "set (neighbors b c r) \<subseteq> inb_set b"
  by (auto simp: neighbors_def inb_set_def is_inbounds_def)

lemma inb_set_cong: "cols b' = cols b \<Longrightarrow> rows b' = rows b \<Longrightarrow> inb_set b' = inb_set b"
  by (simp add: inb_set_def)

lemma flood_measure_visit:
  assumes "p \<notin> visited" and that: "N \<subseteq> inb_set b"
  shows "card ((inb_set b \<union> (set queue \<union> N)) - insert p visited)
         < card ((inb_set b \<union> set (p # queue)) - visited)"
proof (rule psubset_card_mono)
  show "finite ((inb_set b \<union> set (p # queue)) - visited)"
    by (simp add: inb_set_def)
  show "(inb_set b \<union> (set queue \<union> N)) - insert p visited \<subset> (inb_set b \<union> set (p # queue)) - visited"
    using assms that by auto
qed

termination flood
proof (relation "inv_image (less_than <*lex*> less_than)
         (\<lambda>(b, queue, visited). (card ((inb_set b \<union> set queue) - visited), length queue))",
       goal_cases)
  case 1
  show ?case by auto
next
  case (2 b c r queue visited)
  have "card ((inb_set b \<union> set queue) - visited) \<le> card ((inb_set b \<union> set ((c, r) # queue)) - visited)"
    by (rule card_mono) (auto simp: inb_set_def)
  then show ?case by auto
next
  case (3 b c r queue visited x2)
  then show ?case using flood_measure_visit[of "(c, r)" visited "{}" b queue] by simp
next
  case (4 b c r queue visited x2)
  then show ?case using flood_measure_visit[of "(c, r)" visited "{}" b queue] by simp
next
  case (5 b c r queue visited x2 x2a x)
  have d: "inb_set x = inb_set b"
    using 5 by (auto intro!: inb_set_cong dest: update_state_dims)
  have "set (filter (\<lambda>p. p \<notin> insert (c, r) visited) (neighbors x c r)) \<subseteq> inb_set b"
    using set_neighbors_inb[of x c r] d by auto
  from flood_measure_visit[OF _ this, of "(c,r)" visited queue] 5(1)
  have "card ((inb_set x \<union> set (queue @ filter (\<lambda>p. p \<notin> insert (c, r) visited) (neighbors x c r))) - insert (c, r) visited)
        < card ((inb_set b \<union> set ((c, r) # queue)) - visited)"
    unfolding d by (simp add: Un_assoc)
  then show ?case by simp
next
  case (6 b c r queue visited x2 x2a x)
  have d: "inb_set x = inb_set b"
    using 6 by (auto intro!: inb_set_cong dest: update_state_dims)
  show ?case using flood_measure_visit[of "(c, r)" visited "{}" b queue] 6(1) by (simp add: d)
qed

subsection \<open>The flood fill on a well-formed board\<close>

lemma open_cell_fields [simp]:
  "cols (open_cell b p) = cols b" "rows (open_cell b p) = rows b"
  "num_mines (open_cell b p) = num_mines b" "mines_placed (open_cell b p) = mines_placed b"
  "game_over (open_cell b p) = game_over b" "win (open_cell b p) = win b"
  "revealed_count (open_cell b p) = revealed_count b + 1"
  "length (cells (open_cell b p)) = length (cells b)"
  by (simp_all add: open_cell_def)

lemma open_cell_wf [simp]: "wf_board (open_cell b p) = wf_board b"
  by (simp add: wf_board_def)

lemma open_cell_inb [simp]: "inb_set (open_cell b p) = inb_set b"
  by (simp add: inb_set_def)

lemma open_cell_index [simp]: "index (open_cell b p) c r = index b c r"
  by (simp add: index_def)

lemma open_cell_neighbors [simp]: "neighbors (open_cell b p) c r = neighbors b c r"
  by (simp add: neighbors_def is_inbounds_def)

lemma flood_step:
  assumes "wf_board b" "p \<in> inb_set b"
  shows "flood b (p # queue) visited =
     (if p \<in> visited then flood b queue visited
      else if \<not> openable b p then flood b queue (insert p visited)
      else if adjacent (state (cell_of b p)) = 0
      then flood (open_cell b p)
             (queue @ filter (\<lambda>q. q \<notin> insert p visited) (neighbors b (fst p) (snd p)))
             (insert p visited)
      else flood (open_cell b p) queue (insert p visited))"
proof -
  obtain c r where p: "p = (c, r)" by (cases p)
  have inb: "is_inbounds b c r" using assms p by (simp add: inb_set_iff)
  have eq: "b\<lparr>cells := cs, revealed_count := revealed_count b + 1\<rparr> = open_cell b (c, r)"
    if "cs = (cells b)[nat (index b c r) :=
                   (cell_of b (c, r))\<lparr>state := (state (cell_of b (c, r)))\<lparr>is_revealed := True\<rparr>\<rparr>]" for cs
    using that by (simp add: open_cell_def)
  show ?thesis
    unfolding p
    by (simp add: cell_at_inb[OF assms(1) inb] update_state_inb[OF assms(1) inb] openable_def
        Let_def eq neighbors_def is_inbounds_def)
qed

lemma flood_wf_induct [consumes 2, case_names empty visited skip expand single]:
  assumes "wf_board b" "set queue \<subseteq> inb_set b"
    and empty: "\<And>b v. wf_board b \<Longrightarrow> P b [] v"
    and visited: "\<And>b p queue v. \<lbrakk>wf_board b; p \<in> inb_set b; set queue \<subseteq> inb_set b; p \<in> v;
        P b queue v\<rbrakk> \<Longrightarrow> P b (p # queue) v"
    and skip: "\<And>b p queue v. \<lbrakk>wf_board b; p \<in> inb_set b; set queue \<subseteq> inb_set b; p \<notin> v;
        \<not> openable b p; P b queue (insert p v)\<rbrakk> \<Longrightarrow> P b (p # queue) v"
    and expand: "\<And>b p queue v. \<lbrakk>wf_board b; p \<in> inb_set b; set queue \<subseteq> inb_set b; p \<notin> v;
        openable b p; adjacent (state (cell_of b p)) = 0;
        P (open_cell b p) (queue @ filter (\<lambda>q. q \<notin> insert p v) (neighbors b (fst p) (snd p)))
          (insert p v)\<rbrakk> \<Longrightarrow> P b (p # queue) v"
    and single: "\<And>b p queue v. \<lbrakk>wf_board b; p \<in> inb_set b; set queue \<subseteq> inb_set b; p \<notin> v;
        openable b p; adjacent (state (cell_of b p)) \<noteq> 0;
        P (open_cell b p) queue (insert p v)\<rbrakk> \<Longrightarrow> P b (p # queue) v"
  shows "P b queue v"
  using assms(1,2)
proof (induction b queue v rule: flood.induct)
  case (1 b visited)
  then show ?case by (simp add: empty)
next
  case (2 b c r queue v)
  have wf: "wf_board b" and p: "(c, r) \<in> inb_set b" and q: "set queue \<subseteq> inb_set b"
    using "2.prems" by simp_all
  have inb: "is_inbounds b c r" using p by (simp add: inb_set_iff)
  note ca = cell_at_inb[OF wf inb]
  note us = update_state_inb[OF wf inb]
  have oc: "b\<lparr>cells := (cells b)[nat (index b c r) :=
                   (cell_of b (c, r))\<lparr>state := (state (cell_of b (c, r)))\<lparr>is_revealed := True\<rparr>\<rparr>],
              revealed_count := revealed_count b + 1\<rparr> = open_cell b (c, r)"
    by (simp add: open_cell_def)
  show ?case
  proof (cases "(c, r) \<in> v")
    case True
    with "2.IH"(1) wf p q show ?thesis by (auto intro: visited)
  next
    case nv: False
    show ?thesis
    proof (cases "openable b (c, r)")
      case False
      then have "P b queue (insert (c, r) v)"
        using "2.IH"(2,3)[OF nv ca] wf q by (auto simp: openable_def)
      with False nv wf p q show ?thesis by (auto intro: skip)
    next
      case op: True
      then have t: "\<not> (is_revealed (state (cell_of b (c, r))) \<or> is_flagged (state (cell_of b (c, r))))"
        "\<not> is_mine (state (cell_of b (c, r)))"
        by (simp_all add: openable_def)
      show ?thesis
      proof (cases "adjacent (state (cell_of b (c, r))) = 0")
        case True
        have "P (open_cell b (c, r))
                (queue @ filter (\<lambda>q. q \<notin> insert (c, r) v) (neighbors b c r)) (insert (c, r) v)"
          using "2.IH"(4)[OF nv ca t us _ True, of "open_cell b (c, r)"] wf q
            set_neighbors_inb[of b c r]
          by (auto simp: oc)
        with True op nv wf p q show ?thesis by (auto intro: expand)
      next
        case False
        have "P (open_cell b (c, r)) queue (insert (c, r) v)"
          using "2.IH"(5)[OF nv ca t us _ False, of "open_cell b (c, r)"] wf q
          by (auto simp: oc)
        with False op nv wf p q show ?thesis by (auto intro: single)
      qed
    qed
  qed
qed

subsection \<open>What the flood fill leaves alone\<close>

lemma map_frame_update:
  "frame y = frame (xs ! k) \<Longrightarrow> map frame (xs[k := y]) = map frame xs"
  by (cases "k < length xs") (simp_all add: map_update list_update_same_conv list_update_beyond)

lemma same_layout_refl [simp]: "same_layout b b"
  by (simp add: same_layout_def)

lemma same_layout_trans: "same_layout a b \<Longrightarrow> same_layout b c \<Longrightarrow> same_layout a c"
  by (simp add: same_layout_def)

lemma same_layout_length: "same_layout b b' \<Longrightarrow> length (cells b') = length (cells b)"
  by (auto simp: same_layout_def dest: map_eq_imp_length_eq)

lemma same_layout_wf: "same_layout b b' \<Longrightarrow> wf_board b' = wf_board b"
  by (auto simp: wf_board_def same_layout_length) (simp_all add: same_layout_def)

lemma same_layout_nth:
  assumes "same_layout b b'" "i < length (cells b)"
  shows "frame (cells b' ! i) = frame (cells b ! i)"
proof -
  have "map frame (cells b') ! i = map frame (cells b) ! i"
    using assms by (simp add: same_layout_def)
  then show ?thesis using assms same_layout_length[OF assms(1)] by simp
qed

lemma revealed_mono_refl [simp]: "revealed_mono b b"
  by (simp add: revealed_mono_def)

lemma revealed_mono_trans:
  "revealed_mono a b \<Longrightarrow> revealed_mono b c \<Longrightarrow> length (cells b) = length (cells a) \<Longrightarrow> revealed_mono a c"
  by (simp add: revealed_mono_def)

lemma open_cell_layout: "same_layout b (open_cell b p)"
  by (simp add: same_layout_def open_cell_def map_frame_update frame_def cell_of_def)

lemma open_cell_mono: "revealed_mono b (open_cell b p)"
proof -
  have "is_revealed (state (xs[k := y] ! i))"
    if "i < length xs" "is_revealed (state (xs ! i))" "is_revealed (state y)"
    for xs :: "cell list" and k i y
    using that by (cases "i = k") simp_all
  then show ?thesis
    by (simp add: revealed_mono_def open_cell_def)
qed

lemma flood_total:
  assumes "wf_board b" "set queue \<subseteq> inb_set b"
  shows "\<exists>b'. flood b queue visited = Some b' \<and> wf_board b' \<and> same_layout b b'
            \<and> mines_placed b' = mines_placed b \<and> game_over b' = game_over b \<and> win b' = win b
            \<and> revealed_mono b b' \<and> revealed_count b \<le> revealed_count b'"
  using assms
proof (induction b queue visited rule: flood_wf_induct)
  case (empty b v)
  then show ?case by simp
next
  case (visited b p queue v)
  then show ?case by (simp add: flood_step)
next
  case (skip b p queue v)
  then show ?case by (simp add: flood_step)
next
  case (expand b p queue v)
  then obtain b' where b': "flood (open_cell b p)
       (queue @ filter (\<lambda>q. q \<notin> insert p v) (neighbors b (fst p) (snd p))) (insert p v) = Some b'"
    "wf_board b'" "same_layout (open_cell b p) b'" "mines_placed b' = mines_placed b"
    "game_over b' = game_over b" "win b' = win b" "revealed_mono (open_cell b p) b'"
    "revealed_count b + 1 \<le> revealed_count b'"
    by auto
  have "same_layout b b'" "revealed_mono b b'"
    using b'(3,7) open_cell_layout[of b p] open_cell_mono[of b p]
    by (auto intro: same_layout_trans revealed_mono_trans)
  with b' expand(1-6) show ?case by (simp add: flood_step)
next
  case (single b p queue v)
  then obtain b' where b': "flood (open_cell b p) queue (insert p v) = Some b'"
    "wf_board b'" "same_layout (open_cell b p) b'" "mines_placed b' = mines_placed b"
    "game_over b' = game_over b" "win b' = win b" "revealed_mono (open_cell b p) b'"
    "revealed_count b + 1 \<le> revealed_count b'"
    by auto
  have "same_layout b b'" "revealed_mono b b'"
    using b'(3,7) open_cell_layout[of b p] open_cell_mono[of b p]
    by (auto intro: same_layout_trans revealed_mono_trans)
  with b' single(1-6) show ?case by (simp add: flood_step)
qed

subsection \<open>What the two final passes leave alone\<close>

lemma reveal_all_mines_fields [simp]:
  "cols (reveal_all_mines b) = cols b" "rows (reveal_all_mines b) = rows b"
  "num_mines (reveal_all_mines b) = num_mines b" "mines_placed (reveal_all_mines b) = mines_placed b"
  "game_over (reveal_all_mines b) = game_over b" "win (reveal_all_mines b) = win b"
  "revealed_count (reveal_all_mines b) = revealed_count b"
  "length (cells (reveal_all_mines b)) = length (cells b)"
  by (simp_all add: reveal_all_mines_def)

lemma reveal_all_mines_layout: "same_layout b (reveal_all_mines b)"
  by (simp add: same_layout_def reveal_all_mines_def frame_def)

lemma reveal_all_mines_mono: "revealed_mono b (reveal_all_mines b)"
  by (simp add: revealed_mono_def reveal_all_mines_def)

lemma check_win_fields [simp]:
  "cols (check_win b) = cols b" "rows (check_win b) = rows b"
  "num_mines (check_win b) = num_mines b" "mines_placed (check_win b) = mines_placed b"
  "game_over (check_win b) = game_over b"
  "revealed_count (check_win b) = revealed_count b"
  "length (cells (check_win b)) = length (cells b)"
  by (simp_all add: check_win_def Let_def)

lemma check_win_layout: "same_layout b (check_win b)"
  by (simp add: same_layout_def check_win_def frame_def Let_def)

lemma check_win_mono: "revealed_mono b (check_win b)"
  by (simp add: revealed_mono_def check_win_def Let_def)

lemma check_win_win:
  "win (check_win b) \<longleftrightarrow> win b \<or> (revealed_count b = cols b * rows b - num_mines b \<and> \<not> game_over b)"
  by (auto simp: check_win_def Let_def)

text \<open>\<^verbatim>\<open>reveal\<close> once the mines are placed, on a well-formed board.\<close>

lemma reveal_placed:
  assumes "wf_board b" "mines_placed b"
  shows "reveal shuffle b c r =
     (if \<not> is_inbounds b c r then Some b
      else if is_revealed (state (cell_of b (c, r))) \<or> is_flagged (state (cell_of b (c, r))) then Some b
      else if is_mine (state (cell_of b (c, r))) then Some (reveal_all_mines (b\<lparr>game_over := True\<rparr>))
      else map_option check_win (flood b [(c, r)] {}))"
  using assms by (auto simp: reveal_def cell_at_inb split: option.splits)

subsection \<open>The example board\<close>

lemmas eval_defs =
  Board_def positions_def py_range_def upto.simps Cell_def CellState_def
  reveal_def is_inbounds_def place_mines_def mine_positions_def pool_def forbidden_def
  neighbors_def deltas_def py_slice_to_def index_def update_state_def py_index_def cell_at_def
  check_win_def reveal_all_mines_def Let_def

lemma demo_board_reached:
  "Option.bind (Board 5 1 1) (\<lambda>b. reveal rev b 4 0) = Some demo_board"
  by (simp add: eval_defs demo_board_def demo_cell_def)

lemma is_shuffle_rev: "is_shuffle rev"
  by (simp add: is_shuffle_def)

lemma is_shuffle_id: "is_shuffle (\<lambda>xs. xs)"
  by (simp add: is_shuffle_def)

lemma demo_board_reachable: "reachable demo_board"
proof -
  obtain b0 where b0: "Board 5 1 1 = Some b0" by (simp add: Board_def)
  with demo_board_reached have "reveal rev b0 4 0 = Some demo_board" by simp
  with b0 show ?thesis
    by (blast intro: reachable.intros is_shuffle_rev)
qed

lemma demo_board_wf: "wf_board demo_board"
  by (simp add: wf_board_def demo_board_def)

subsection \<open>Writing one cell\<close>

lemma set_state_scalars [simp]:
  "cols (set_state b p f) = cols b" "rows (set_state b p f) = rows b"
  "num_mines (set_state b p f) = num_mines b" "mines_placed (set_state b p f) = mines_placed b"
  "game_over (set_state b p f) = game_over b" "win (set_state b p f) = win b"
  "revealed_count (set_state b p f) = revealed_count b"
  "length (cells (set_state b p f)) = length (cells b)"
  by (simp_all add: set_state_def)

lemma set_state_wf [simp]: "wf_board (set_state b p f) = wf_board b"
  by (simp add: wf_board_def)

lemma set_state_inb [simp]: "inb_set (set_state b p f) = inb_set b"
  by (simp add: inb_set_def)

lemma set_state_index [simp]: "index (set_state b p f) c r = index b c r"
  by (simp add: index_def)

lemma set_state_neighbors [simp]: "neighbors (set_state b p f) c r = neighbors b c r"
  by (simp add: neighbors_def is_inbounds_def)

lemma update_state_set_state:
  assumes "wf_board b" "(c, r) \<in> inb_set b"
  shows "update_state b (index b c r) f = Some (set_state b (c, r) f)"
  using update_state_inb[OF assms(1), of c r f] assms(2)
  by (simp add: set_state_def inb_set_iff)

lemma cell_of_set_state:
  assumes "wf_board b" "p \<in> inb_set b" "q \<in> inb_set b"
  shows "cell_of (set_state b p f) q =
         (if q = p then (cell_of b p)\<lparr>state := f (state (cell_of b p))\<rparr> else cell_of b q)"
  using inb_index(1)[OF assms(1,2)] index_eq_iff[OF assms(3,2)]
  by (auto simp: cell_of_def set_state_def index_def)

lemma open_cell_set_state:
  "open_cell b p = (set_state b p (\<lambda>s. s\<lparr>is_revealed := True\<rparr>))\<lparr>revealed_count := revealed_count b + 1\<rparr>"
  by (simp add: open_cell_def set_state_def)

lemma cell_of_count [simp]: "cell_of (b\<lparr>revealed_count := n\<rparr>) q = cell_of b q"
  by (simp add: cell_of_def index_def)

lemma cell_of_open_cell:
  assumes "wf_board b" "p \<in> inb_set b" "q \<in> inb_set b"
  shows "cell_of (open_cell b p) q =
         (if q = p then (cell_of b p)\<lparr>state := (state (cell_of b p))\<lparr>is_revealed := True\<rparr>\<rparr>
          else cell_of b q)"
  by (simp add: open_cell_set_state cell_of_set_state[OF assms])

subsection \<open>Mine placement on a well-formed board\<close>

lemma mark_mines_inb:
  assumes "wf_board b" "set ps \<subseteq> inb_set b"
  shows "\<exists>b'. mark_mines b ps = Some b' \<and> wf_board b' \<and> b' = b\<lparr>cells := cells b'\<rparr>
           \<and> (\<forall>q \<in> inb_set b. cell_of b' q =
                 (if q \<in> set ps then (cell_of b q)\<lparr>state := (state (cell_of b q))\<lparr>is_mine := True\<rparr>\<rparr>
                  else cell_of b q))"
  using assms
proof (induction ps arbitrary: b)
  case Nil
  then show ?case by simp
next
  case (Cons p ps)
  obtain c r where p: "p = (c, r)" by (cases p)
  let ?b1 = "set_state b p (\<lambda>s. s\<lparr>is_mine := True\<rparr>)"
  have pin: "p \<in> inb_set b" and ps: "set ps \<subseteq> inb_set ?b1" and wf1: "wf_board ?b1"
    using Cons.prems by simp_all
  from Cons.IH[OF wf1 ps] obtain b' where b':
    "mark_mines ?b1 ps = Some b'" "wf_board b'" "b' = ?b1\<lparr>cells := cells b'\<rparr>"
    "\<forall>q \<in> inb_set b. cell_of b' q =
        (if q \<in> set ps then (cell_of ?b1 q)\<lparr>state := (state (cell_of ?b1 q))\<lparr>is_mine := True\<rparr>\<rparr>
         else cell_of ?b1 q)"
    by auto
  have 1: "mark_mines b (p # ps) = Some b'"
    using b'(1) update_state_set_state[OF Cons.prems(1), of c r] pin by (simp add: p)
  have 2: "b' = b\<lparr>cells := cells b'\<rparr>"
    using b'(3) by (simp add: set_state_def)
  have 3: "cell_of b' q =
      (if q \<in> set (p # ps) then (cell_of b q)\<lparr>state := (state (cell_of b q))\<lparr>is_mine := True\<rparr>\<rparr>
       else cell_of b q)" if "q \<in> inb_set b" for q
    using b'(4) that cell_of_set_state[OF Cons.prems(1) pin that] by auto
  from 1 2 3 b'(2) show ?case by blast
qed

lemma count_mines_inb:
  assumes "wf_board b" "set ps \<subseteq> inb_set b"
  shows "count_mines b ps acc =
         Some (acc + int (length (filter (\<lambda>q. is_mine (state (cell_of b q))) ps)))"
  using assms
proof (induction ps arbitrary: acc)
  case Nil
  then show ?case by simp
next
  case (Cons p ps)
  obtain c r where p: "p = (c, r)" by (cases p)
  have "is_inbounds b c r" using Cons.prems p by (simp add: inb_set_iff)
  from cell_at_inb[OF Cons.prems(1) this] Cons show ?case
    by (simp add: p)
qed

lemma compute_adjacent_inb:
  assumes "wf_board b" "set ps \<subseteq> inb_set b"
  shows "\<exists>b'. compute_adjacent b ps = Some b' \<and> wf_board b' \<and> b' = b\<lparr>cells := cells b'\<rparr>
           \<and> (\<forall>q \<in> inb_set b. cell_of b' q =
                 (if q \<in> set ps \<and> \<not> is_mine (state (cell_of b q))
                  then (cell_of b q)\<lparr>state := (state (cell_of b q))\<lparr>adjacent := mine_count b q\<rparr>\<rparr>
                  else cell_of b q))"
  using assms
proof (induction ps arbitrary: b)
  case Nil
  then show ?case by simp
next
  case (Cons p ps)
  obtain c r where p: "p = (c, r)" by (cases p)
  have pin: "p \<in> inb_set b" and inb: "is_inbounds b c r"
    using Cons.prems p by (simp_all add: inb_set_iff)
  note ca = cell_at_inb[OF Cons.prems(1) inb]
  show ?case
  proof (cases "is_mine (state (cell_of b p))")
    case True
    from Cons.IH[of b] Cons.prems obtain b' where b':
      "compute_adjacent b ps = Some b'" "wf_board b'" "b' = b\<lparr>cells := cells b'\<rparr>"
      "\<forall>q \<in> inb_set b. cell_of b' q =
         (if q \<in> set ps \<and> \<not> is_mine (state (cell_of b q))
          then (cell_of b q)\<lparr>state := (state (cell_of b q))\<lparr>adjacent := mine_count b q\<rparr>\<rparr>
          else cell_of b q)"
      by auto
    have "compute_adjacent b (p # ps) = Some b'"
      using b'(1) True ca by (simp add: p)
    moreover have "\<forall>q \<in> inb_set b. cell_of b' q =
         (if q \<in> set (p # ps) \<and> \<not> is_mine (state (cell_of b q))
          then (cell_of b q)\<lparr>state := (state (cell_of b q))\<lparr>adjacent := mine_count b q\<rparr>\<rparr>
          else cell_of b q)"
      using b'(4) True by auto
    ultimately show ?thesis using b'(2,3) by blast
  next
    case False
    let ?b1 = "set_state b p (\<lambda>s. s\<lparr>adjacent := mine_count b p\<rparr>)"
    have cm: "count_mines b (neighbors b c r) 0 = Some (mine_count b p)"
      using count_mines_inb[OF Cons.prems(1) set_neighbors_inb, of c r 0]
      by (simp add: mine_count_def p)
    have us: "update_state b (index b c r) (\<lambda>s. s\<lparr>adjacent := mine_count b p\<rparr>) = Some ?b1"
      using update_state_set_state[OF Cons.prems(1), of c r] pin by (simp add: p)
    have wf1: "wf_board ?b1" and ps: "set ps \<subseteq> inb_set ?b1"
      using Cons.prems by simp_all
    have c1: "cell_of ?b1 q =
        (if q = p then (cell_of b p)\<lparr>state := (state (cell_of b p))\<lparr>adjacent := mine_count b p\<rparr>\<rparr>
         else cell_of b q)" if "q \<in> inb_set b" for q
      using cell_of_set_state[OF Cons.prems(1) pin that] .
    have m1: "is_mine (state (cell_of ?b1 q)) = is_mine (state (cell_of b q))" if "q \<in> inb_set b" for q
      using c1[OF that] by simp
    have mc: "mine_count ?b1 q = mine_count b q" for q
    proof -
      have "filter (\<lambda>n. is_mine (state (cell_of ?b1 n))) (neighbors b (fst q) (snd q))
          = filter (\<lambda>n. is_mine (state (cell_of b n))) (neighbors b (fst q) (snd q))"
        using set_neighbors_inb[of b "fst q" "snd q"] m1
        by (intro filter_cong) auto
      then show ?thesis by (simp add: mine_count_def)
    qed
    from Cons.IH[OF wf1 ps] obtain b' where b':
      "compute_adjacent ?b1 ps = Some b'" "wf_board b'" "b' = ?b1\<lparr>cells := cells b'\<rparr>"
      "\<forall>q \<in> inb_set b. cell_of b' q =
         (if q \<in> set ps \<and> \<not> is_mine (state (cell_of ?b1 q))
          then (cell_of ?b1 q)\<lparr>state := (state (cell_of ?b1 q))\<lparr>adjacent := mine_count ?b1 q\<rparr>\<rparr>
          else cell_of ?b1 q)"
      by auto
    have 1: "compute_adjacent b (p # ps) = Some b'"
      using b'(1) False ca cm us by (simp add: p)
    have 2: "b' = b\<lparr>cells := cells b'\<rparr>"
      using b'(3) by (simp add: set_state_def)
    have 3: "cell_of b' q =
         (if q \<in> set (p # ps) \<and> \<not> is_mine (state (cell_of b q))
          then (cell_of b q)\<lparr>state := (state (cell_of b q))\<lparr>adjacent := mine_count b q\<rparr>\<rparr>
          else cell_of b q)" if "q \<in> inb_set b" for q
      using b'(4) that c1[OF that] m1[OF that] False by (auto simp: mc)
    from 1 2 3 b'(2) show ?thesis by blast
  qed
qed

subsection \<open>Cells and coordinates\<close>

lemma card_inb_set: "card (inb_set b) = nat (cols b) * nat (rows b)"
  by (simp add: inb_set_def card_cartesian_product)

lemma index_image:
  assumes "wf_board b"
  shows "(\<lambda>p. nat (index b (fst p) (snd p))) ` inb_set b = {..<length (cells b)}"
proof (rule card_subset_eq)
  show "finite {..<length (cells b)}" by simp
  show "(\<lambda>p. nat (index b (fst p) (snd p))) ` inb_set b \<subseteq> {..<length (cells b)}"
    using inb_index(1)[OF assms] by auto
  have "inj_on (\<lambda>p. nat (index b (fst p) (snd p))) (inb_set b)"
    by (rule inj_onI) (simp add: index_eq_iff)
  then have "card ((\<lambda>p. nat (index b (fst p) (snd p))) ` inb_set b) = card (inb_set b)"
    by (rule card_image)
  then show "card ((\<lambda>p. nat (index b (fst p) (snd p))) ` inb_set b) = card {..<length (cells b)}"
    using assms by (simp add: card_inb_set wf_board_def)
qed

lemma count_cells:
  assumes "wf_board b"
  shows "length (filter P (cells b)) = card {q \<in> inb_set b. P (cell_of b q)}"
proof -
  let ?f = "\<lambda>p. nat (index b (fst p) (snd p))"
  have inj: "inj_on ?f {q \<in> inb_set b. P (cell_of b q)}"
    by (rule inj_onI) (simp add: index_eq_iff)
  have "{i. i < length (cells b) \<and> P (cells b ! i)} = ?f ` {q \<in> inb_set b. P (cell_of b q)}"
    using index_image[OF assms] by (auto simp: cell_of_def image_iff)
  then show ?thesis
    by (simp add: length_filter_conv_card card_image[OF inj])
qed

lemma cell_of_in_cells:
  assumes "wf_board b" "q \<in> inb_set b"
  shows "cell_of b q \<in> set (cells b)"
  using inb_index(1)[OF assms] by (simp add: cell_of_def)

lemma cells_cell_of:
  assumes "wf_board b" "cl \<in> set (cells b)"
  shows "\<exists>q \<in> inb_set b. cl = cell_of b q"
proof -
  from assms(2) obtain i where i: "i < length (cells b)" "cl = cells b ! i"
    by (auto simp: in_set_conv_nth)
  then have "i \<in> (\<lambda>p. nat (index b (fst p) (snd p))) ` inb_set b"
    by (simp add: index_image[OF assms(1)])
  then obtain q where "q \<in> inb_set b" "i = nat (index b (fst q) (snd q))"
    by blast
  with i show ?thesis by (auto simp: cell_of_def)
qed

lemma same_layout_cell_of:
  assumes "same_layout b b'" "wf_board b" "q \<in> inb_set b"
  shows "frame (cell_of b' q) = frame (cell_of b q)"
  using same_layout_nth[OF assms(1) inb_index(1)[OF assms(2,3)]] assms(1)
  by (simp add: cell_of_def index_def same_layout_def)

lemma same_layout_inb: "same_layout b b' \<Longrightarrow> inb_set b' = inb_set b"
  by (simp add: same_layout_def inb_set_def)

lemma same_layout_neighbors: "same_layout b b' \<Longrightarrow> neighbors b' c r = neighbors b c r"
  by (simp add: same_layout_def neighbors_def is_inbounds_def)

lemma revealed_mono_cell_of:
  assumes "revealed_mono b b'" "same_layout b b'" "wf_board b" "q \<in> inb_set b"
    "is_revealed (state (cell_of b q))"
  shows "is_revealed (state (cell_of b' q))"
  using assms(1,5) inb_index(1)[OF assms(3,4)] assms(2)
  by (simp add: revealed_mono_def cell_of_def index_def same_layout_def)

subsection \<open>The pool and the mines taken from it\<close>

lemma set_pool: "set (pool b sc sr) = inb_set b - forbidden b sc sr"
  by (auto simp: pool_def set_positions inb_set_def)

lemma length_neighbors: "length (neighbors b c r) \<le> 8"
proof -
  have "length (neighbors b c r) \<le> length deltas"
    unfolding neighbors_def by (rule order_trans[OF length_filter_le]) simp
  then show ?thesis by (simp add: deltas_def)
qed

lemma card_forbidden: "card (forbidden b sc sr) \<le> 9"
proof -
  have "card (forbidden b sc sr) \<le> Suc (card (set (neighbors b sc sr)))"
    by (simp add: forbidden_def card_insert_le_m1 card_insert_if)
  also have "\<dots> \<le> Suc (length (neighbors b sc sr))"
    by (simp add: card_length)
  also have "\<dots> \<le> 9" using length_neighbors[of b sc sr] by simp
  finally show ?thesis .
qed

lemma length_pool: "nat (cols b) * nat (rows b) \<le> length (pool b sc sr) + 9"
proof -
  let ?xs = "positions (cols b) (rows b)"
  let ?F = "forbidden b sc sr"
  have "length (filter (\<lambda>p. p \<in> ?F) ?xs) = card (set (filter (\<lambda>p. p \<in> ?F) ?xs))"
    by (simp add: distinct_card distinct_positions del: set_filter)
  also have "\<dots> \<le> card ?F"
    by (rule card_mono) (auto simp: forbidden_def)
  finally have "length (filter (\<lambda>p. p \<in> ?F) ?xs) \<le> 9"
    using card_forbidden[of b sc sr] by simp
  moreover have "length (filter (\<lambda>p. p \<in> ?F) ?xs) + length (filter (\<lambda>p. p \<notin> ?F) ?xs) = length ?xs"
    by (rule sum_length_filter_compl)
  ultimately show ?thesis
    by (simp add: pool_def length_positions)
qed

lemma set_py_slice_to: "set (py_slice_to xs n) \<subseteq> set xs"
  by (auto simp: py_slice_to_def dest: in_set_takeD)

lemma distinct_py_slice_to: "distinct xs \<Longrightarrow> distinct (py_slice_to xs n)"
  by (simp add: py_slice_to_def)

lemma length_py_slice_to:
  "0 \<le> n \<Longrightarrow> n \<le> int (length xs) \<Longrightarrow> int (length (py_slice_to xs n)) = n"
  by (simp add: py_slice_to_def)

lemma shuffle_facts:
  assumes "is_shuffle shuffle"
  shows "set (shuffle xs) = set xs" "length (shuffle xs) = length xs"
    "distinct (shuffle xs) = distinct xs"
  using assms
  by (auto simp: is_shuffle_def dest: mset_eq_setD mset_eq_length mset_eq_imp_distinct_iff)

lemma mine_positions_subset:
  assumes "is_shuffle shuffle"
  shows "set (mine_positions shuffle b sc sr) \<subseteq> inb_set b - forbidden b sc sr"
  using set_py_slice_to[of "shuffle (pool b sc sr)" "num_mines b"]
  by (simp add: mine_positions_def shuffle_facts[OF assms] set_pool)

lemma distinct_mine_positions:
  assumes "is_shuffle shuffle"
  shows "distinct (mine_positions shuffle b sc sr)"
  by (simp add: mine_positions_def distinct_py_slice_to shuffle_facts[OF assms] pool_def
      distinct_positions)

lemma length_mine_positions:
  assumes "is_shuffle shuffle" "0 \<le> num_mines b" "num_mines b \<le> cols b * rows b - 9"
    "0 < cols b" "0 < rows b"
  shows "int (length (mine_positions shuffle b sc sr)) = num_mines b"
proof -
  have "cols b * rows b = int (nat (cols b) * nat (rows b))"
    using assms(4,5) by simp
  also have "\<dots> \<le> int (length (pool b sc sr)) + 9"
    using length_pool[of b sc sr] by linarith
  finally have "num_mines b \<le> int (length (shuffle (pool b sc sr)))"
    using assms(3) by (simp add: shuffle_facts[OF assms(1)])
  then show ?thesis
    unfolding mine_positions_def by (intro length_py_slice_to assms(2))
qed

lemma cells_update_scalars:
  assumes "b' = b\<lparr>cells := cs\<rparr>"
  shows "cols b' = cols b" "rows b' = rows b" "num_mines b' = num_mines b"
    "mines_placed b' = mines_placed b" "revealed_count b' = revealed_count b"
    "game_over b' = game_over b" "win b' = win b" "inb_set b' = inb_set b"
    "index b' c r = index b c r" "neighbors b' c r = neighbors b c r"
  using assms by (simp_all add: inb_set_def index_def neighbors_def is_inbounds_def)

lemma cell_of_mines_placed [simp]: "cell_of (b\<lparr>mines_placed := x\<rparr>) q = cell_of b q"
  by (simp add: cell_of_def index_def)

lemma mine_count_cong:
  assumes "inb_set b' = inb_set b" "\<And>c r. neighbors b' c r = neighbors b c r"
    "\<And>q. q \<in> inb_set b \<Longrightarrow> is_mine (state (cell_of b' q)) = is_mine (state (cell_of b q))"
  shows "mine_count b' q = mine_count b q"
proof -
  have "filter (\<lambda>n. is_mine (state (cell_of b' n))) (neighbors b (fst q) (snd q))
      = filter (\<lambda>n. is_mine (state (cell_of b n))) (neighbors b (fst q) (snd q))"
    using set_neighbors_inb[of b "fst q" "snd q"] assms(3)
    by (intro filter_cong) auto
  then show ?thesis by (simp add: mine_count_def assms(2))
qed

lemma place_mines_inb:
  assumes "wf_board b" "is_shuffle shuffle"
  shows "\<exists>b'. place_mines shuffle b sc sr = Some b' \<and> wf_board b'
           \<and> b' = b\<lparr>cells := cells b', mines_placed := True\<rparr>
           \<and> (\<forall>q \<in> inb_set b.
                 is_mine (state (cell_of b' q)) =
                   (is_mine (state (cell_of b q)) \<or> q \<in> set (mine_positions shuffle b sc sr))
               \<and> is_revealed (state (cell_of b' q)) = is_revealed (state (cell_of b q))
               \<and> is_flagged (state (cell_of b' q)) = is_flagged (state (cell_of b q))
               \<and> adjacent (state (cell_of b' q)) =
                   (if is_mine (state (cell_of b' q)) then adjacent (state (cell_of b q))
                    else mine_count b' q))"
proof -
  let ?mp = "mine_positions shuffle b sc sr"
  have "set ?mp \<subseteq> inb_set b"
    using mine_positions_subset[OF assms(2), of b sc sr] by blast
  from mark_mines_inb[OF assms(1) this] obtain b1 where b1:
    "mark_mines b ?mp = Some b1" "wf_board b1" "b1 = b\<lparr>cells := cells b1\<rparr>"
    "\<forall>q \<in> inb_set b. cell_of b1 q =
        (if q \<in> set ?mp then (cell_of b q)\<lparr>state := (state (cell_of b q))\<lparr>is_mine := True\<rparr>\<rparr>
         else cell_of b q)"
    by blast
  note s1 = cells_update_scalars[OF b1(3)]
  have "set (positions (cols b1) (rows b1)) \<subseteq> inb_set b1"
    by (simp add: set_positions inb_set_def)
  from compute_adjacent_inb[OF b1(2) this] obtain b2 where b2:
    "compute_adjacent b1 (positions (cols b1) (rows b1)) = Some b2" "wf_board b2"
    "b2 = b1\<lparr>cells := cells b2\<rparr>"
    "\<forall>q \<in> inb_set b1. cell_of b2 q =
        (if q \<in> set (positions (cols b1) (rows b1)) \<and> \<not> is_mine (state (cell_of b1 q))
         then (cell_of b1 q)\<lparr>state := (state (cell_of b1 q))\<lparr>adjacent := mine_count b1 q\<rparr>\<rparr>
         else cell_of b1 q)"
    by blast
  note s2 = cells_update_scalars[OF b2(3)]
  let ?b' = "b2\<lparr>mines_placed := True\<rparr>"
  have c2: "cell_of b2 q =
        (if \<not> is_mine (state (cell_of b1 q))
         then (cell_of b1 q)\<lparr>state := (state (cell_of b1 q))\<lparr>adjacent := mine_count b1 q\<rparr>\<rparr>
         else cell_of b1 q)" if "q \<in> inb_set b" for q
  proof -
    have "q \<in> inb_set b1" "q \<in> set (positions (cols b1) (rows b1))"
      using that s1(8) by (simp_all add: set_positions inb_set_def)
    with b2(4) show ?thesis by simp
  qed
  have m2: "is_mine (state (cell_of b2 q)) = is_mine (state (cell_of b1 q))" if "q \<in> inb_set b" for q
    using c2[OF that] by simp
  have mc: "mine_count ?b' q = mine_count b1 q" for q
  proof (rule mine_count_cong)
    show "inb_set ?b' = inb_set b1" using s2(8) by (simp add: inb_set_def)
    show "neighbors ?b' c r = neighbors b1 c r" for c r
      using s2(10)[of c r] by (simp add: neighbors_def is_inbounds_def)
    show "is_mine (state (cell_of ?b' q)) = is_mine (state (cell_of b1 q))" if "q \<in> inb_set b1" for q
      using m2[of q] that s1(8) by simp
  qed
  have 1: "place_mines shuffle b sc sr = Some ?b'"
    using b1(1) b2(1) by (simp add: place_mines_def)
  have 2: "wf_board ?b'" using b2(2) by (simp add: wf_board_def)
  have 3: "?b' = b\<lparr>cells := cells ?b', mines_placed := True\<rparr>"
    using b1(3) b2(3) by (cases b, cases b1, cases b2) simp
  have 4: "is_mine (state (cell_of ?b' q)) = (is_mine (state (cell_of b q)) \<or> q \<in> set ?mp)
         \<and> is_revealed (state (cell_of ?b' q)) = is_revealed (state (cell_of b q))
         \<and> is_flagged (state (cell_of ?b' q)) = is_flagged (state (cell_of b q))
         \<and> adjacent (state (cell_of ?b' q)) =
             (if is_mine (state (cell_of ?b' q)) then adjacent (state (cell_of b q))
              else mine_count ?b' q)" if "q \<in> inb_set b" for q
    using c2[OF that] b1(4) that unfolding mc by auto
  from 1 2 3 4 show ?thesis by blast
qed

subsection \<open>Reveal on a well-formed board\<close>

lemma reveal_placed_total:
  assumes "wf_board b" "mines_placed b"
  shows "\<exists>b'. reveal shuffle b c r = Some b' \<and> wf_board b' \<and> same_layout b b'
           \<and> mines_placed b' \<and> revealed_mono b b'"
proof (cases "is_inbounds b c r \<and> openable b (c, r)")
  case True
  then have "set [(c, r)] \<subseteq> inb_set b" by (simp add: inb_set_iff)
  from flood_total[OF assms(1) this, of "{}"] obtain b2 where b2:
    "flood b [(c, r)] {} = Some b2" "wf_board b2" "same_layout b b2" "mines_placed b2"
    "revealed_mono b b2"
    using assms(2) by auto
  have "same_layout b (check_win b2)"
    using b2(3) check_win_layout by (rule same_layout_trans)
  moreover have "revealed_mono b (check_win b2)"
    using b2(5) check_win_mono same_layout_length[OF b2(3)] by (rule revealed_mono_trans)
  moreover have "wf_board (check_win b2)"
    using b2(2) same_layout_wf[OF check_win_layout, of b2] by simp
  ultimately show ?thesis
    using True assms b2 by (auto simp: reveal_placed openable_def)
next
  case False
  have "same_layout b (reveal_all_mines (b\<lparr>game_over := True\<rparr>))"
    by (simp add: same_layout_def reveal_all_mines_def frame_def)
  moreover have "revealed_mono b (reveal_all_mines (b\<lparr>game_over := True\<rparr>))"
    by (simp add: revealed_mono_def reveal_all_mines_def)
  moreover have "wf_board (reveal_all_mines (b\<lparr>game_over := True\<rparr>))"
    using assms(1) by (simp add: wf_board_def)
  ultimately show ?thesis
    using False assms by (auto simp: reveal_placed openable_def)
qed

lemma reveal_unplaced:
  assumes "\<not> mines_placed b" "is_inbounds b c r" "place_mines shuffle b c r = Some b1"
  shows "reveal shuffle b c r =
     (case cell_at b1 (index b1 c r) of
        None \<Rightarrow> None
      | Some cl \<Rightarrow>
          if is_revealed (state cl) \<or> is_flagged (state cl) then Some b1
          else if is_mine (state cl) then Some (reveal_all_mines (b1\<lparr>game_over := True\<rparr>))
          else (case flood b1 [(c, r)] {} of None \<Rightarrow> None | Some b2 \<Rightarrow> Some (check_win b2)))"
  using assms by (simp add: reveal_def)

lemma placed_scalars:
  assumes "b' = b\<lparr>cells := cs, mines_placed := True\<rparr>"
  shows "cols b' = cols b" "rows b' = rows b" "num_mines b' = num_mines b"
    "mines_placed b'" "revealed_count b' = revealed_count b"
    "game_over b' = game_over b" "win b' = win b" "inb_set b' = inb_set b"
    "is_inbounds b' c r = is_inbounds b c r" "neighbors b' c r = neighbors b c r"
  using assms by (simp_all add: inb_set_def neighbors_def is_inbounds_def)

lemma flood_head_revealed:
  assumes "wf_board b" "p \<in> inb_set b" "openable b p"
  shows "\<exists>b'. flood b [p] {} = Some b' \<and> wf_board b' \<and> same_layout b b'
           \<and> mines_placed b' = mines_placed b \<and> game_over b' = game_over b \<and> win b' = win b
           \<and> is_revealed (state (cell_of b' p))"
proof -
  let ?b1 = "open_cell b p"
  let ?q = "if adjacent (state (cell_of b p)) = 0
            then filter (\<lambda>q. q \<notin> {p}) (neighbors b (fst p) (snd p)) else []"
  have st: "flood b [p] {} = flood ?b1 ?q {p}"
    using assms by (simp add: flood_step)
  have "set ?q \<subseteq> inb_set ?b1"
    using set_neighbors_inb[of b "fst p" "snd p"] by auto
  from flood_total[OF _ this, of "{p}"] assms(1) obtain b' where b':
    "flood ?b1 ?q {p} = Some b'" "wf_board b'" "same_layout ?b1 b'"
    "mines_placed b' = mines_placed b" "game_over b' = game_over b" "win b' = win b"
    "revealed_mono ?b1 b'"
    by auto
  have "is_revealed (state (cell_of ?b1 p))"
    using cell_of_open_cell[OF assms(1,2,2)] by simp
  then have "is_revealed (state (cell_of b' p))"
    using revealed_mono_cell_of[OF b'(7,3)] assms(1,2) by simp
  moreover have "same_layout b b'"
    using open_cell_layout b'(3) by (rule same_layout_trans)
  ultimately show ?thesis using st b' by simp
qed

lemma check_win_cell_of_revealed:
  assumes "wf_board b" "q \<in> inb_set b" "is_revealed (state (cell_of b q))"
  shows "is_revealed (state (cell_of (check_win b) q))"
  using revealed_mono_cell_of[OF check_win_mono check_win_layout assms] .

lemma Board_fresh:
  assumes "Board w h m = Some b"
  shows "cols b = w" "rows b = h" "num_mines b = m" "\<not> mines_placed b" "revealed_count b = 0"
    "\<not> game_over b" "\<not> win b" "\<And>cl. cl \<in> set (cells b) \<Longrightarrow> state cl = CellState"
  using assms by (auto simp: Board_def Cell_def)

lemma Board_fresh_cell:
  assumes "Board w h m = Some b" "q \<in> inb_set b"
  shows "state (cell_of b q) = CellState"
  using Board_fresh(8)[OF assms(1)] cell_of_in_cells[OF Board_wf[OF assms(1)] assms(2)] by simp

subsection \<open>Sequences of calls\<close>

lemma play_placed:
  assumes "wf_board b" "mines_placed b"
  shows "\<exists>b'. play shuffle b acts = Some b' \<and> wf_board b' \<and> same_layout b b' \<and> mines_placed b'"
  using assms
proof (induction acts arbitrary: b)
  case Nil
  then show ?case by simp
next
  case (Cons a acts)
  show ?case
  proof (cases a)
    case (Reveal c r)
    from reveal_placed_total[OF Cons.prems, of shuffle c r] obtain b1 where b1:
      "reveal shuffle b c r = Some b1" "wf_board b1" "same_layout b b1" "mines_placed b1"
      by blast
    from Cons.IH[OF b1(2,4)] obtain b' where
      "play shuffle b1 acts = Some b'" "wf_board b'" "same_layout b1 b'" "mines_placed b'"
      by blast
    with b1 Reveal show ?thesis by (auto intro: same_layout_trans)
  next
    case (Toggle_flag c r)
    with Cons.IH[OF Cons.prems] show ?thesis by (simp add: toggle_flag_def)
  qed
qed

lemma same_layout_mines:
  assumes "same_layout b b'"
  shows "map (\<lambda>cl. is_mine (state cl)) (cells b') = map (\<lambda>cl. is_mine (state cl)) (cells b)"
proof -
  have e: "map (\<lambda>cl. is_mine (state cl)) cs = map (\<lambda>f. fst (snd (snd f))) (map frame cs)" for cs
    by (simp add: frame_def)
  have "map frame (cells b') = map frame (cells b)"
    using assms by (simp add: same_layout_def)
  then show ?thesis unfolding e[of "cells b'"] e[of "cells b"] by (rule arg_cong)
qed

lemma first_reveal:
  assumes b0: "Board w h m = Some b0" and sh: "is_shuffle shuffle" and inb: "is_inbounds b0 c r"
  shows "\<exists>b1 b2. place_mines shuffle b0 c r = Some b1 \<and> wf_board b1 \<and> mines_placed b1
           \<and> b1 = b0\<lparr>cells := cells b1, mines_placed := True\<rparr>
           \<and> (\<forall>q \<in> inb_set b0.
                 is_mine (state (cell_of b1 q)) = (q \<in> set (mine_positions shuffle b0 c r))
               \<and> \<not> is_revealed (state (cell_of b1 q)) \<and> \<not> is_flagged (state (cell_of b1 q))
               \<and> (\<not> is_mine (state (cell_of b1 q)) \<longrightarrow>
                    adjacent (state (cell_of b1 q)) = mine_count b1 q))
           \<and> openable b1 (c, r)
           \<and> flood b1 [(c, r)] {} = Some b2
           \<and> reveal shuffle b0 c r = Some (check_win b2)"
proof -
  note wf0 = Board_wf[OF b0]
  from place_mines_inb[OF wf0 sh, of c r] obtain b1 where b1:
    "place_mines shuffle b0 c r = Some b1" "wf_board b1"
    "b1 = b0\<lparr>cells := cells b1, mines_placed := True\<rparr>"
    "\<forall>q \<in> inb_set b0.
        is_mine (state (cell_of b1 q)) =
          (is_mine (state (cell_of b0 q)) \<or> q \<in> set (mine_positions shuffle b0 c r))
      \<and> is_revealed (state (cell_of b1 q)) = is_revealed (state (cell_of b0 q))
      \<and> is_flagged (state (cell_of b1 q)) = is_flagged (state (cell_of b0 q))
      \<and> adjacent (state (cell_of b1 q)) =
          (if is_mine (state (cell_of b1 q)) then adjacent (state (cell_of b0 q))
           else mine_count b1 q)"
    by blast
  note s1 = placed_scalars[OF b1(3)]
  have cells1: "is_mine (state (cell_of b1 q)) = (q \<in> set (mine_positions shuffle b0 c r))
      \<and> \<not> is_revealed (state (cell_of b1 q)) \<and> \<not> is_flagged (state (cell_of b1 q))
      \<and> (\<not> is_mine (state (cell_of b1 q)) \<longrightarrow> adjacent (state (cell_of b1 q)) = mine_count b1 q)"
    if "q \<in> inb_set b0" for q
    using b1(4) that Board_fresh_cell[OF b0 that] by (simp add: CellState_def)
  have pin: "(c, r) \<in> inb_set b0" using inb by (simp add: inb_set_iff)
  have "(c, r) \<in> forbidden b0 c r" by (simp add: forbidden_def)
  then have nm: "(c, r) \<notin> set (mine_positions shuffle b0 c r)"
    using mine_positions_subset[OF sh, of b0 c r] by blast
  have op: "openable b1 (c, r)"
    using cells1[OF pin] nm by (simp add: openable_def)
  have pin1: "(c, r) \<in> inb_set b1" using pin s1(8) by simp
  from flood_head_revealed[OF b1(2) pin1 op] obtain b2 where b2: "flood b1 [(c, r)] {} = Some b2"
    by blast
  have inb1: "is_inbounds b1 c r" using inb s1(9) by simp
  have "reveal shuffle b0 c r = Some (check_win b2)"
    using reveal_unplaced[OF Board_fresh(4)[OF b0] inb b1(1)] cell_at_inb[OF b1(2) inb1] op b2
    by (simp add: openable_def)
  with b1(1,2,3) s1(4) cells1 op b2 show ?thesis by blast
qed

subsection \<open>The lazy mine placement inside reveal\<close>

lemma reveal_lazy:
  assumes "wf_board b" "is_shuffle shuffle" "is_inbounds b c r"
  shows "\<exists>pb. (if mines_placed b then pb = b else place_mines shuffle b c r = Some pb)
           \<and> wf_board pb \<and> mines_placed pb \<and> is_inbounds pb c r
           \<and> pb = b\<lparr>cells := cells pb, mines_placed := True\<rparr>
           \<and> reveal shuffle b c r = reveal shuffle pb c r"
proof (cases "mines_placed b")
  case True
  with assms show ?thesis by (cases b) auto
next
  case False
  from place_mines_inb[OF assms(1,2), of c r] obtain pb where pb:
    "place_mines shuffle b c r = Some pb" "wf_board pb"
    "pb = b\<lparr>cells := cells pb, mines_placed := True\<rparr>"
    by blast
  note s = placed_scalars[OF pb(3)]
  have inb: "is_inbounds pb c r" using assms(3) s(9) by simp
  have "reveal shuffle b c r = reveal shuffle pb c r"
    unfolding reveal_unplaced[OF False assms(3) pb(1)] reveal_placed[OF pb(2) s(4)]
    using inb cell_at_inb[OF pb(2) inb] by (auto split: option.splits)
  with False pb s(4) inb show ?thesis by auto
qed

lemma reveal_total:
  assumes "wf_board b" "is_shuffle shuffle"
  shows "\<exists>b'. reveal shuffle b c r = Some b' \<and> wf_board b' \<and> mines_placed b' = (mines_placed b \<or> is_inbounds b c r)"
proof (cases "is_inbounds b c r")
  case True
  from reveal_lazy[OF assms True] obtain pb where pb:
    "wf_board pb" "mines_placed pb" "reveal shuffle b c r = reveal shuffle pb c r"
    by blast
  from reveal_placed_total[OF pb(1,2), of shuffle c r] pb(3) True show ?thesis by auto
next
  case False
  with assms show ?thesis by (simp add: reveal_def)
qed

subsection \<open>How reveal sets the two final flags\<close>

lemma check_win_safe_revealed:
  "win (check_win b) \<Longrightarrow> \<not> win b \<Longrightarrow> safe_revealed (check_win b)"
  by (auto simp: check_win_def Let_def safe_revealed_def split: if_splits)

lemma reveal_placed_flags:
  assumes "wf_board b" "mines_placed b" "reveal shuffle b c r = Some b'"
  shows "win b' \<and> \<not> win b \<longrightarrow>
           is_inbounds b c r \<and> openable b (c, r) \<and> \<not> game_over b' \<and> safe_revealed b'
           \<and> revealed_count b' = cols b' * rows b' - num_mines b'"
    and "win b \<longrightarrow> win b'"
    and "game_over b \<longrightarrow> game_over b'"
    and "game_over b' \<and> win b' \<longrightarrow> win b"
    and "is_inbounds b c r \<and> openable b (c, r) \<longrightarrow>
           game_over b' = game_over b
           \<and> (win b' \<longleftrightarrow> win b \<or> revealed_count b' = cols b' * rows b' - num_mines b' \<and> \<not> game_over b')"
    and "\<not> (is_inbounds b c r \<and> openable b (c, r)) \<longrightarrow>
           win b' = win b \<and> revealed_count b' = revealed_count b
           \<and> (\<forall>i < length (cells b). is_revealed (state (cells b' ! i)) \<longrightarrow>
                 is_revealed (state (cells b ! i)) \<or> is_mine (state (cells b ! i)))"
proof -
  show "\<not> (is_inbounds b c r \<and> openable b (c, r)) \<longrightarrow>
           win b' = win b \<and> revealed_count b' = revealed_count b
           \<and> (\<forall>i < length (cells b). is_revealed (state (cells b' ! i)) \<longrightarrow>
                 is_revealed (state (cells b ! i)) \<or> is_mine (state (cells b ! i)))"
    using assms by (auto simp: reveal_placed openable_def reveal_all_mines_def split: if_splits)
  have flood: "\<exists>b2. flood b [(c, r)] {} = Some b2 \<and> b' = check_win b2 \<and> win b2 = win b
                 \<and> game_over b2 = game_over b"
    if "is_inbounds b c r" "openable b (c, r)"
  proof -
    have "set [(c, r)] \<subseteq> inb_set b" using that by (simp add: inb_set_iff)
    from flood_total[OF assms(1) this, of "{}"] obtain b2 where
      "flood b [(c, r)] {} = Some b2" "win b2 = win b" "game_over b2 = game_over b"
      by auto
    with that assms show ?thesis by (auto simp: reveal_placed openable_def)
  qed
  show "is_inbounds b c r \<and> openable b (c, r) \<longrightarrow>
           game_over b' = game_over b
           \<and> (win b' \<longleftrightarrow> win b \<or> revealed_count b' = cols b' * rows b' - num_mines b' \<and> \<not> game_over b')"
    using flood by (auto simp: check_win_win)
  show "win b' \<and> \<not> win b \<longrightarrow>
           is_inbounds b c r \<and> openable b (c, r) \<and> \<not> game_over b' \<and> safe_revealed b'
           \<and> revealed_count b' = cols b' * rows b' - num_mines b'"
  proof (cases "is_inbounds b c r \<and> openable b (c, r)")
    case True
    with flood obtain b2 where b2: "b' = check_win b2" "win b2 = win b" by blast
    show ?thesis
      using True check_win_safe_revealed[of b2] unfolding b2(1)
      by (auto simp: b2(2) check_win_win)
  next
    case False
    with assms show ?thesis
      by (auto simp: reveal_placed openable_def split: if_splits)
  qed
  show "win b \<longrightarrow> win b'"
    using flood assms by (cases "is_inbounds b c r \<and> openable b (c, r)")
      (auto simp: reveal_placed openable_def check_win_win split: if_splits)
  show "game_over b \<longrightarrow> game_over b'"
    using flood assms by (cases "is_inbounds b c r \<and> openable b (c, r)")
      (auto simp: reveal_placed openable_def split: if_splits)
  show "game_over b' \<and> win b' \<longrightarrow> win b"
    using flood assms by (cases "is_inbounds b c r \<and> openable b (c, r)")
      (auto simp: reveal_placed openable_def check_win_win split: if_splits)
qed

subsection \<open>Facts about every observable board\<close>

lemma same_layout_flags:
  assumes "same_layout b b'" "\<forall>cl \<in> set (cells b). \<not> is_flagged (state cl)"
  shows "\<forall>cl \<in> set (cells b'). \<not> is_flagged (state cl)"
proof
  fix cl assume "cl \<in> set (cells b')"
  then obtain i where i: "i < length (cells b')" "cl = cells b' ! i"
    by (auto simp: in_set_conv_nth)
  then have il: "i < length (cells b)" using same_layout_length[OF assms(1)] by simp
  from same_layout_nth[OF assms(1) il] assms(2) il i show "\<not> is_flagged (state cl)"
    by (auto simp: frame_def)
qed

lemma safe_revealed_mono:
  assumes "same_layout b b'" "revealed_mono b b'" "safe_revealed b"
  shows "safe_revealed b'"
  unfolding safe_revealed_def
proof (intro ballI impI)
  fix cl assume "cl \<in> set (cells b')" "\<not> is_mine (state cl)"
  then obtain i where i: "i < length (cells b')" "cl = cells b' ! i" "\<not> is_mine (state (cells b' ! i))"
    by (auto simp: in_set_conv_nth)
  then have il: "i < length (cells b)" using same_layout_length[OF assms(1)] by simp
  from same_layout_nth[OF assms(1) il] i(3) have "\<not> is_mine (state (cells b ! i))"
    by (simp add: frame_def)
  with assms(3) il have "is_revealed (state (cells b ! i))"
    by (simp add: safe_revealed_def)
  with assms(2) il show "is_revealed (state cl)"
    by (simp add: revealed_mono_def i(2))
qed

lemma basic_inv_Board: "Board w h m = Some b \<Longrightarrow> basic_inv b"
  using Board_fresh[of w h m b] Board_wf[of w h m b] by (simp add: basic_inv_def CellState_def)

lemma basic_inv_placed:
  assumes "basic_inv b" "\<not> mines_placed b" "is_inbounds b c r" "is_shuffle shuffle"
    "place_mines shuffle b c r = Some pb"
  shows "basic_inv pb"
proof -
  have wf: "wf_board b" using assms(1) by (simp add: basic_inv_def)
  from place_mines_inb[OF wf assms(4), of c r] assms(5) have pb:
    "wf_board pb" "pb = b\<lparr>cells := cells pb, mines_placed := True\<rparr>"
    "\<forall>q \<in> inb_set b. is_flagged (state (cell_of pb q)) = is_flagged (state (cell_of b q))"
    by auto
  note s = placed_scalars[OF pb(2)]
  have "\<not> is_flagged (state cl)" if "cl \<in> set (cells pb)" for cl
  proof -
    from cells_cell_of[OF pb(1) that] obtain q where q: "q \<in> inb_set b" "cl = cell_of pb q"
      using s(8) by auto
    with pb(3) cell_of_in_cells[OF wf q(1)] assms(1) show ?thesis
      by (simp add: basic_inv_def)
  qed
  moreover have "0 < cols pb" "0 < rows pb"
    using assms(3) s(1,2) by (simp_all add: is_inbounds_def)
  moreover have "\<not> win pb" using assms(1,2) s(7) by (simp add: basic_inv_def)
  ultimately show ?thesis using pb(1) s(4) by (simp add: basic_inv_def)
qed

lemma basic_inv_reveal_placed:
  assumes "basic_inv b" "mines_placed b" "reveal shuffle b c r = Some b'"
  shows "basic_inv b'"
proof -
  have wf: "wf_board b" using assms(1) by (simp add: basic_inv_def)
  from reveal_placed_total[OF wf assms(2), of shuffle c r] assms(3) have b':
    "wf_board b'" "same_layout b b'" "mines_placed b'" "revealed_mono b b'"
    by auto
  have "safe_revealed b'" if "win b'"
  proof (cases "win b")
    case True
    with assms(1) have "safe_revealed b" by (simp add: basic_inv_def)
    with b'(2,4) show ?thesis by (rule safe_revealed_mono)
  next
    case False
    with reveal_placed_flags(1)[OF wf assms(2,3)] that show ?thesis by simp
  qed
  moreover have "\<forall>cl \<in> set (cells b'). \<not> is_flagged (state cl)"
    using same_layout_flags[OF b'(2)] assms(1) by (simp add: basic_inv_def)
  moreover have "0 < cols b'" "0 < rows b'"
    using assms(1,2) b'(2) by (simp_all add: basic_inv_def same_layout_def)
  ultimately show ?thesis using b'(1,3) by (simp add: basic_inv_def)
qed

lemma basic_inv_reveal:
  assumes "basic_inv b" "is_shuffle shuffle" "reveal shuffle b c r = Some b'"
  shows "basic_inv b'"
proof (cases "is_inbounds b c r")
  case True
  have wf: "wf_board b" using assms(1) by (simp add: basic_inv_def)
  from reveal_lazy[OF wf assms(2) True] obtain pb where pb:
    "if mines_placed b then pb = b else place_mines shuffle b c r = Some pb"
    "mines_placed pb" "reveal shuffle b c r = reveal shuffle pb c r"
    by blast
  have "basic_inv pb"
    using pb(1) assms(1) basic_inv_placed[OF assms(1) _ True assms(2)]
    by (cases "mines_placed b") auto
  from basic_inv_reveal_placed[OF this pb(2)] assms(3) pb(3) show ?thesis by simp
next
  case False
  with assms show ?thesis by (simp add: reveal_def)
qed

lemma reachable_basic_inv: "reachable b \<Longrightarrow> basic_inv b"
proof (induction rule: reachable.induct)
  case (constructed w h mines b)
  then show ?case by (rule basic_inv_Board)
next
  case (revealed b shuffle c r b')
  then show ?case by (auto intro: basic_inv_reveal)
next
  case (toggled b c r)
  then show ?case by (simp add: toggle_flag_def)
qed

lemma reachable_wf: "reachable b \<Longrightarrow> wf_board b"
  using reachable_basic_inv[of b] by (simp add: basic_inv_def)

lemma reveal_both_flags:
  assumes "wf_board b" "is_shuffle shuffle" "reveal shuffle b c r = Some b'"
  shows "game_over b' \<and> win b' \<longrightarrow> win b"
proof (cases "is_inbounds b c r")
  case True
  from reveal_lazy[OF assms(1,2) True] obtain pb where pb:
    "wf_board pb" "mines_placed pb" "pb = b\<lparr>cells := cells pb, mines_placed := True\<rparr>"
    "reveal shuffle b c r = reveal shuffle pb c r"
    by blast
  from reveal_placed_flags(4)[OF pb(1,2), of shuffle c r b'] assms(3) pb(4)
    placed_scalars(7)[OF pb(3)]
  show ?thesis by simp
next
  case False
  with assms show ?thesis by (simp add: reveal_def)
qed

lemma play_to_win_exclusive:
  assumes "wf_board b" "is_shuffle shuffle" "\<not> (win b \<and> game_over b)"
  shows "\<exists>b'. play_to_win shuffle b acts = Some b' \<and> \<not> (win b' \<and> game_over b')"
  using assms(1,3)
proof (induction acts arbitrary: b)
  case Nil
  then show ?case by simp
next
  case (Cons a acts)
  show ?case
  proof (cases "win b")
    case True
    with Cons.prems show ?thesis by simp
  next
    case nw: False
    show ?thesis
    proof (cases a)
      case (Reveal c r)
      from reveal_total[OF Cons.prems(1) assms(2), of c r] obtain b1 where b1:
        "reveal shuffle b c r = Some b1" "wf_board b1"
        by blast
      from reveal_both_flags[OF Cons.prems(1) assms(2) b1(1)] nw
      have "\<not> (win b1 \<and> game_over b1)" by blast
      from Cons.IH[OF b1(2) this] b1(1) nw Reveal show ?thesis by simp
    next
      case (Toggle_flag c r)
      with Cons.IH[OF Cons.prems] nw show ?thesis by (simp add: toggle_flag_def)
    qed
  qed
qed



subsection \<open>What the flood fill reaches\<close>

lemma reach_inb: "reach b S q \<Longrightarrow> S \<subseteq> inb_set b \<Longrightarrow> q \<in> inb_set b"
  by (induction rule: reach.induct) (use set_neighbors_inb in blast)+

lemma fill_inb: "S \<subseteq> inb_set b \<Longrightarrow> fill b S \<subseteq> inb_set b"
  by (auto simp: fill_def dest: reach_inb)

lemma finite_fill: "S \<subseteq> inb_set b \<Longrightarrow> finite (fill b S)"
  using fill_inb finite_inb_set by (rule finite_subset)

lemma reach_mono: "reach b S q \<Longrightarrow> S \<subseteq> T \<Longrightarrow> reach b T q"
  by (induction rule: reach.induct) (auto intro: reach.intros)

lemma reach_drop:
  assumes "reach b (S \<union> X) q" "\<forall>x \<in> X. \<not> openable b x"
  shows "q \<in> X \<or> reach b S q"
  using assms(1)
proof (induction rule: reach.induct)
  case (start p)
  then show ?case by (auto intro: reach.start)
next
  case (step p q)
  then have "reach b S p" using assms(2) by (auto simp: expanding_def)
  with step show ?case by (auto intro: reach.step)
qed

lemma fill_drop:
  assumes "\<forall>x \<in> X. \<not> openable b x"
  shows "fill b (S \<union> X) = fill b S"
proof
  show "fill b (S \<union> X) \<subseteq> fill b S"
    using reach_drop[OF _ assms] assms by (auto simp: fill_def)
  show "fill b S \<subseteq> fill b (S \<union> X)"
    by (auto simp: fill_def intro: reach_mono)
qed

lemma fill_skip: "\<not> openable b p \<Longrightarrow> fill b (insert p S) = fill b S"
  using fill_drop[of "{p}" b S] by simp

lemma openable_open_cell:
  assumes "wf_board b" "p \<in> inb_set b" "q \<in> inb_set b"
  shows "openable (open_cell b p) q \<longleftrightarrow> openable b q \<and> q \<noteq> p"
  by (simp add: openable_def cell_of_open_cell[OF assms])

lemma expanding_open_cell:
  assumes "wf_board b" "p \<in> inb_set b" "q \<in> inb_set b"
  shows "expanding (open_cell b p) q \<longleftrightarrow> expanding b q \<and> q \<noteq> p"
  by (auto simp: expanding_def openable_def cell_of_open_cell[OF assms])

lemma reach_open_cell:
  assumes wf: "wf_board b" and p: "p \<in> inb_set b" and S: "S \<subseteq> inb_set b"
    and N: "N = (if expanding b p then set (neighbors b (fst p) (snd p)) else {})"
    and r: "reach b (insert p S) q"
  shows "q = p \<or> reach (open_cell b p) (S \<union> N) q"
  using r
proof (induction rule: reach.induct)
  case (start q)
  then show ?case by (auto intro: reach.start)
next
  case (step p' q)
  show ?case
  proof (cases "p' = p")
    case True
    with step N have "q \<in> S \<union> N" by simp
    then show ?thesis by (auto intro: reach.start)
  next
    case False
    with step have r': "reach (open_cell b p) (S \<union> N) p'" by simp
    have "p' \<in> inb_set b" using reach_inb[OF step(1)] p S by simp
    then have "expanding (open_cell b p) p'"
      using step(2) False by (simp add: expanding_open_cell[OF wf p])
    with r' step(3) show ?thesis by (auto intro: reach.step)
  qed
qed

lemma reach_open_cell_back:
  assumes wf: "wf_board b" and p: "p \<in> inb_set b" and S: "S \<subseteq> inb_set b"
    and N: "N = (if expanding b p then set (neighbors b (fst p) (snd p)) else {})"
    and r: "reach (open_cell b p) (S \<union> N) q"
  shows "reach b (insert p S) q"
  using r
proof (induction rule: reach.induct)
  case (start q)
  show ?case
  proof (cases "q \<in> S")
    case True
    then show ?thesis by (auto intro: reach.start)
  next
    case False
    with start N have "expanding b p" "q \<in> set (neighbors b (fst p) (snd p))"
      by (auto split: if_splits)
    then show ?thesis by (auto intro: reach.step reach.start)
  qed
next
  case (step p' q)
  have "S \<union> N \<subseteq> inb_set (open_cell b p)"
    using S N set_neighbors_inb[of b "fst p" "snd p"] by (auto split: if_splits)
  from reach_inb[OF step(1) this] have "p' \<in> inb_set b" by simp
  then have "expanding b p'"
    using step(2) by (simp add: expanding_open_cell[OF wf p])
  with step show ?case by (auto intro: reach.step)
qed

lemma fill_open_cell:
  assumes wf: "wf_board b" and p: "p \<in> inb_set b" and S: "S \<subseteq> inb_set b"
    and op: "openable b p"
    and N: "N = (if expanding b p then set (neighbors b (fst p) (snd p)) else {})"
  shows "fill b (insert p S) = insert p (fill (open_cell b p) (S \<union> N))"
    and "p \<notin> fill (open_cell b p) (S \<union> N)"
proof -
  have SN: "S \<union> N \<subseteq> inb_set b"
    using S N set_neighbors_inb[of b "fst p" "snd p"] by (auto split: if_splits)
  show "p \<notin> fill (open_cell b p) (S \<union> N)"
    by (simp add: fill_def openable_open_cell[OF wf p p])
  show "fill b (insert p S) = insert p (fill (open_cell b p) (S \<union> N))"
  proof (intro set_eqI iffI)
    fix q assume q: "q \<in> fill b (insert p S)"
    then have "q \<in> inb_set b" using fill_inb[of "insert p S" b] p S by auto
    with q reach_open_cell[OF wf p S N, of q]
    show "q \<in> insert p (fill (open_cell b p) (S \<union> N))"
      by (auto simp: fill_def openable_open_cell[OF wf p])
  next
    fix q assume q: "q \<in> insert p (fill (open_cell b p) (S \<union> N))"
    show "q \<in> fill b (insert p S)"
    proof (cases "q = p")
      case True
      with op show ?thesis by (auto simp: fill_def intro: reach.start)
    next
      case False
      with q have f: "q \<in> fill (open_cell b p) (S \<union> N)" by simp
      then have "q \<in> inb_set b" using fill_inb[of "S \<union> N" "open_cell b p"] SN by auto
      with f reach_open_cell_back[OF wf p S N, of q] show ?thesis
        by (auto simp: fill_def openable_open_cell[OF wf p])
    qed
  qed
qed

lemma fill_empty [simp]: "fill b {} = {}"
proof -
  have "\<not> reach b {} q" for q
  proof
    assume "reach b {} q"
    then show False by (induction rule: reach.induct) auto
  qed
  then show ?thesis by (simp add: fill_def)
qed

lemma fill_step_result:
  assumes wf: "wf_board b" and p: "p \<in> inb_set b" and S: "S \<subseteq> inb_set b"
    and op: "openable b p"
    and N: "N = (if expanding b p then set (neighbors b (fst p) (snd p)) else {})"
    and T: "fill (open_cell b p) T = fill (open_cell b p) (S \<union> N)"
    and rev: "\<forall>q \<in> inb_set b. is_revealed (state (cell_of b' q)) \<longleftrightarrow>
                is_revealed (state (cell_of (open_cell b p) q)) \<or> q \<in> fill (open_cell b p) T"
    and cnt: "revealed_count b' = revealed_count (open_cell b p) + int (card (fill (open_cell b p) T))"
  shows "\<forall>q \<in> inb_set b. is_revealed (state (cell_of b' q)) \<longleftrightarrow>
           is_revealed (state (cell_of b q)) \<or> q \<in> fill b (insert p S)"
    and "revealed_count b' = revealed_count b + int (card (fill b (insert p S)))"
proof -
  note f = fill_open_cell[OF wf p S op N]
  have SN: "S \<union> N \<subseteq> inb_set (open_cell b p)"
    using S N set_neighbors_inb[of b "fst p" "snd p"] by (auto split: if_splits)
  show "\<forall>q \<in> inb_set b. is_revealed (state (cell_of b' q)) \<longleftrightarrow>
           is_revealed (state (cell_of b q)) \<or> q \<in> fill b (insert p S)"
  proof
    fix q assume q: "q \<in> inb_set b"
    have "is_revealed (state (cell_of (open_cell b p) q)) \<longleftrightarrow>
          is_revealed (state (cell_of b q)) \<or> q = p"
      by (simp add: cell_of_open_cell[OF wf p q])
    with rev q show "is_revealed (state (cell_of b' q)) \<longleftrightarrow>
           is_revealed (state (cell_of b q)) \<or> q \<in> fill b (insert p S)"
      unfolding T f(1) by auto
  qed
  have "card (insert p (fill (open_cell b p) (S \<union> N))) = Suc (card (fill (open_cell b p) (S \<union> N)))"
    using f(2) finite_fill[OF SN] by simp
  with cnt show "revealed_count b' = revealed_count b + int (card (fill b (insert p S)))"
    unfolding T f(1) by simp
qed

text \<open>
  The flood fill returns, and it reveals exactly the cells of \<open>fill\<close>: each of them
  once, with one increment of \<^verbatim>\<open>revealed_count\<close>.
\<close>

lemma flood_fill:
  assumes "wf_board b" "set queue \<subseteq> inb_set b"
  shows "visited \<subseteq> inb_set b \<Longrightarrow> \<forall>v \<in> visited. \<not> openable b v \<Longrightarrow>
     \<exists>b'. flood b queue visited = Some b'
       \<and> (\<forall>q \<in> inb_set b. is_revealed (state (cell_of b' q)) \<longleftrightarrow>
             is_revealed (state (cell_of b q)) \<or> q \<in> fill b (set queue))
       \<and> revealed_count b' = revealed_count b + int (card (fill b (set queue)))"
  using assms
proof (induction b queue visited rule: flood_wf_induct)
  case (empty b v)
  then show ?case by simp
next
  case (visited b p queue v)
  then have "\<not> openable b p" by blast
  then have "fill b (set (p # queue)) = fill b (set queue)"
    by (simp add: fill_skip)
  with visited show ?case by (simp add: flood_step)
next
  case (skip b p queue v)
  then have "fill b (set (p # queue)) = fill b (set queue)"
    by (simp add: fill_skip)
  moreover have "insert p v \<subseteq> inb_set b" "\<forall>x \<in> insert p v. \<not> openable b x"
    using skip by auto
  ultimately show ?case using skip by (simp add: flood_step)
next
  case (expand b p queue v)
  let ?b1 = "open_cell b p"
  let ?N = "set (neighbors b (fst p) (snd p))"
  let ?T = "set (queue @ filter (\<lambda>q. q \<notin> insert p v) (neighbors b (fst p) (snd p)))"
  have V: "insert p v \<subseteq> inb_set ?b1" "\<forall>x \<in> insert p v. \<not> openable ?b1 x"
    using expand.prems expand.hyps(2) openable_open_cell[OF expand.hyps(1,2)] by auto
  from expand.IH[OF V] obtain b' where b':
    "flood ?b1 (queue @ filter (\<lambda>q. q \<notin> insert p v) (neighbors b (fst p) (snd p))) (insert p v) = Some b'"
    "\<forall>q \<in> inb_set b. is_revealed (state (cell_of b' q)) \<longleftrightarrow>
        is_revealed (state (cell_of ?b1 q)) \<or> q \<in> fill ?b1 ?T"
    "revealed_count b' = revealed_count ?b1 + int (card (fill ?b1 ?T))"
    by auto
  have ex: "expanding b p" using expand.hyps by (simp add: expanding_def)
  have N: "?N = (if expanding b p then set (neighbors b (fst p) (snd p)) else {})"
    using ex by simp
  have "set queue \<union> ?N = ?T \<union> (?N \<inter> insert p v)" by auto
  moreover have "fill ?b1 (?T \<union> (?N \<inter> insert p v)) = fill ?b1 ?T"
    using V(2) by (intro fill_drop) auto
  ultimately have T: "fill ?b1 ?T = fill ?b1 (set queue \<union> ?N)" by simp
  from fill_step_result[OF expand.hyps(1,2,3,5) N T b'(2,3)] b'(1) expand.hyps
  show ?case by (simp add: flood_step)
next
  case (single b p queue v)
  let ?b1 = "open_cell b p"
  have V: "insert p v \<subseteq> inb_set ?b1" "\<forall>x \<in> insert p v. \<not> openable ?b1 x"
    using single.prems single.hyps(2) openable_open_cell[OF single.hyps(1,2)] by auto
  from single.IH[OF V] obtain b' where b':
    "flood ?b1 queue (insert p v) = Some b'"
    "\<forall>q \<in> inb_set b. is_revealed (state (cell_of b' q)) \<longleftrightarrow>
        is_revealed (state (cell_of ?b1 q)) \<or> q \<in> fill ?b1 (set queue)"
    "revealed_count b' = revealed_count ?b1 + int (card (fill ?b1 (set queue)))"
    by auto
  have ex: "\<not> expanding b p" using single.hyps by (simp add: expanding_def)
  have N: "{} = (if expanding b p then set (neighbors b (fst p) (snd p)) else {})"
    using ex by simp
  have T: "fill ?b1 (set queue) = fill ?b1 (set queue \<union> {})" by simp
  from fill_step_result[OF single.hyps(1,2,3,5) N T b'(2,3)] b'(1) single.hyps
  show ?case by (simp add: flood_step)
qed

subsection \<open>Counting the revealed cells\<close>

lemma filter_conj_all:
  assumes "length (filter (\<lambda>x. P x \<and> Q x) xs) = length (filter Q xs)"
  shows "\<forall>x \<in> set xs. Q x \<longrightarrow> P x"
proof (rule ccontr)
  assume "\<not> (\<forall>x \<in> set xs. Q x \<longrightarrow> P x)"
  then obtain x where "x \<in> set (filter Q xs)" "\<not> P x" by auto
  then have "length (filter P (filter Q xs)) < length (filter Q xs)"
    by (rule length_filter_less)
  moreover have "filter P (filter Q xs) = filter (\<lambda>x. P x \<and> Q x) xs"
    by (simp add: conj_commute)
  ultimately show False using assms by simp
qed

lemma count_inv_safe_revealed:
  assumes "count_inv b" "wf_board b" "mines_placed b" "0 < cols b" "0 < rows b"
    "revealed_count b = cols b * rows b - num_mines b"
  shows "safe_revealed b"
proof -
  let ?R = "length (filter (\<lambda>cl. is_revealed (state cl) \<and> \<not> is_mine (state cl)) (cells b))"
  let ?M = "length (filter (\<lambda>cl. is_mine (state cl)) (cells b))"
  let ?S = "length (filter (\<lambda>cl. \<not> is_mine (state cl)) (cells b))"
  have len: "int (length (cells b)) = cols b * rows b"
    using assms(2,4,5) by (simp add: wf_board_def)
  have R: "revealed_count b = int ?R" using assms(1) by (simp add: count_inv_def)
  have "?R \<le> length (cells b)" by (rule length_filter_le)
  then have "\<not> num_mines b < 0" using assms(6) R len by linarith
  with assms(1,3,6) have M: "int ?M = num_mines b" by (auto simp: count_inv_def)
  have "?M + ?S = length (cells b)" by (rule sum_length_filter_compl)
  with M R assms(6) len have "?R = ?S" by linarith
  from filter_conj_all[OF this] show ?thesis by (simp add: safe_revealed_def)
qed

lemma check_win_safe_cells:
  assumes "safe_revealed b"
  shows "cells (check_win b) = cells b"
proof -
  have "map (\<lambda>cl. if \<not> is_revealed (state cl) \<and> \<not> is_mine (state cl)
              then cl\<lparr>state := (state cl)\<lparr>is_revealed := True\<rparr>\<rparr> else cl) (cells b) = cells b"
    using assms by (intro map_idI) (auto simp: safe_revealed_def)
  then show ?thesis by (simp add: check_win_def Let_def)
qed

lemma cell_of_cells_cong:
  "cells b' = cells b \<Longrightarrow> cols b' = cols b \<Longrightarrow> cell_of b' q = cell_of b q"
  by (simp add: cell_of_def index_def)

lemma revealed_safe_count:
  assumes wf: "wf_board b" and wf': "wf_board b'" and lay: "same_layout b b'"
    and F: "F \<subseteq> inb_set b" "\<forall>q \<in> F. openable b q"
    and rev: "\<forall>q \<in> inb_set b. is_revealed (state (cell_of b' q)) \<longleftrightarrow>
                 is_revealed (state (cell_of b q)) \<or> q \<in> F"
  shows "length (filter (\<lambda>cl. is_revealed (state cl) \<and> \<not> is_mine (state cl)) (cells b'))
       = length (filter (\<lambda>cl. is_revealed (state cl) \<and> \<not> is_mine (state cl)) (cells b)) + card F"
proof -
  let ?P = "\<lambda>cl. is_revealed (state cl) \<and> \<not> is_mine (state cl)"
  have inb: "inb_set b' = inb_set b" using lay by (rule same_layout_inb)
  have mine: "is_mine (state (cell_of b' q)) = is_mine (state (cell_of b q))" if "q \<in> inb_set b" for q
    using same_layout_cell_of[OF lay wf that] by (simp add: frame_def)
  have "{q \<in> inb_set b'. ?P (cell_of b' q)} = {q \<in> inb_set b. ?P (cell_of b q)} \<union> F"
    using rev mine F by (auto simp: inb openable_def)
  moreover have "{q \<in> inb_set b. ?P (cell_of b q)} \<inter> F = {}"
    using F(2) by (auto simp: openable_def)
  moreover have "finite {q \<in> inb_set b. ?P (cell_of b q)}" "finite F"
    using finite_inb_set[of b] F(1) by (auto intro: finite_subset)
  ultimately have "card {q \<in> inb_set b'. ?P (cell_of b' q)}
                 = card {q \<in> inb_set b. ?P (cell_of b q)} + card F"
    by (simp add: card_Un_disjoint)
  then show ?thesis by (simp add: count_cells[OF wf] count_cells[OF wf'])
qed

lemma fill_openable: "\<forall>q \<in> fill b S. openable b q"
  by (simp add: fill_def)

text \<open>The flood fill from one openable target, all its effects together.\<close>

lemma flood_result:
  assumes "wf_board b" "t \<in> inb_set b"
  shows "\<exists>b2. flood b [t] {} = Some b2 \<and> wf_board b2 \<and> same_layout b b2
           \<and> mines_placed b2 = mines_placed b \<and> game_over b2 = game_over b \<and> win b2 = win b
           \<and> (\<forall>q \<in> inb_set b. is_revealed (state (cell_of b2 q)) \<longleftrightarrow>
                 is_revealed (state (cell_of b q)) \<or> q \<in> fill b {t})
           \<and> revealed_count b2 = revealed_count b + int (card (fill b {t}))
           \<and> length (filter (\<lambda>cl. is_revealed (state cl) \<and> \<not> is_mine (state cl)) (cells b2))
             = length (filter (\<lambda>cl. is_revealed (state cl) \<and> \<not> is_mine (state cl)) (cells b))
               + card (fill b {t})"
proof -
  have q: "set [t] \<subseteq> inb_set b" using assms(2) by simp
  from flood_total[OF assms(1) q, of "{}"] obtain b2 where b2:
    "flood b [t] {} = Some b2" "wf_board b2" "same_layout b b2"
    "mines_placed b2 = mines_placed b" "game_over b2 = game_over b" "win b2 = win b"
    by blast
  from flood_fill[OF assms(1) q, of "{}"] b2(1) have f:
    "\<forall>q \<in> inb_set b. is_revealed (state (cell_of b2 q)) \<longleftrightarrow>
        is_revealed (state (cell_of b q)) \<or> q \<in> fill b {t}"
    "revealed_count b2 = revealed_count b + int (card (fill b {t}))"
    by auto
  have "fill b {t} \<subseteq> inb_set b" using fill_inb[of "{t}" b] assms(2) by simp
  from revealed_safe_count[OF assms(1) b2(2,3) this fill_openable f(1)] b2 f
  show ?thesis by blast
qed

subsection \<open>The flood-fill path of reveal\<close>

lemma same_layout_mine_count:
  assumes "same_layout b b'"
  shows "length (filter (\<lambda>cl. is_mine (state cl)) (cells b'))
       = length (filter (\<lambda>cl. is_mine (state cl)) (cells b))"
proof -
  have e: "length (filter (\<lambda>cl. is_mine (state cl)) cs)
      = length (filter (\<lambda>x. x) (map (\<lambda>cl. is_mine (state cl)) cs))" for cs :: "cell list"
    by (simp add: filter_map comp_def)
  show ?thesis unfolding e same_layout_mines[OF assms] ..
qed

lemma same_layout_zero_cell:
  assumes "same_layout b b'" "wf_board b" "q \<in> inb_set b"
  shows "zero_cell b' q = zero_cell b q"
    and "is_mine (state (cell_of b' q)) = is_mine (state (cell_of b q))"
    and "is_flagged (state (cell_of b' q)) = is_flagged (state (cell_of b q))"
    and "adjacent (state (cell_of b' q)) = adjacent (state (cell_of b q))"
  using same_layout_cell_of[OF assms] by (simp_all add: zero_cell_def frame_def)

lemma check_win_count_cells:
  assumes "count_inv b" "wf_board b" "mines_placed b" "0 < cols b" "0 < rows b"
  shows "cells (check_win b) = cells b"
proof (cases "revealed_count b = cols b * rows b - num_mines b \<and> \<not> game_over b")
  case True
  with count_inv_safe_revealed[OF assms] show ?thesis by (simp add: check_win_safe_cells)
next
  case False
  then show ?thesis by (auto simp: check_win_def Let_def)
qed

lemma count_inv_cells_cong:
  assumes "count_inv b" "cells b' = cells b" "revealed_count b' = revealed_count b"
    "mines_placed b' = mines_placed b" "cols b' = cols b" "rows b' = rows b"
    "num_mines b' = num_mines b"
  shows "count_inv b'"
  using assms unfolding count_inv_def by metis

lemma reveal_flood_path:
  assumes wf: "wf_board b" and placed: "mines_placed b" and dims: "0 < cols b" "0 < rows b"
    and cnt: "revealed_count b =
        int (length (filter (\<lambda>cl. is_revealed (state cl) \<and> \<not> is_mine (state cl)) (cells b)))"
    and G: "int (length (filter (\<lambda>cl. is_mine (state cl)) (cells b))) = num_mines b
        \<or> num_mines b < 0
        \<or> cols b * rows b - num_mines b < revealed_count b + int (card (fill b {(c, r)}))"
    and inb: "is_inbounds b c r" and op: "openable b (c, r)"
  shows "\<exists>b'. reveal shuffle b c r = Some b' \<and> wf_board b' \<and> same_layout b b' \<and> mines_placed b'
           \<and> game_over b' = game_over b
           \<and> (\<forall>q \<in> inb_set b. is_revealed (state (cell_of b' q)) \<longleftrightarrow>
                 is_revealed (state (cell_of b q)) \<or> q \<in> fill b {(c, r)})
           \<and> revealed_count b' = revealed_count b + int (card (fill b {(c, r)}))
           \<and> count_inv b'"
proof -
  have t: "(c, r) \<in> inb_set b" using inb by (simp add: inb_set_iff)
  from flood_result[OF wf t] obtain b2 where b2:
    "flood b [(c, r)] {} = Some b2" "wf_board b2" "same_layout b b2"
    "mines_placed b2 = mines_placed b" "game_over b2 = game_over b"
    "\<forall>q \<in> inb_set b. is_revealed (state (cell_of b2 q)) \<longleftrightarrow>
        is_revealed (state (cell_of b q)) \<or> q \<in> fill b {(c, r)}"
    "revealed_count b2 = revealed_count b + int (card (fill b {(c, r)}))"
    "length (filter (\<lambda>cl. is_revealed (state cl) \<and> \<not> is_mine (state cl)) (cells b2))
       = length (filter (\<lambda>cl. is_revealed (state cl) \<and> \<not> is_mine (state cl)) (cells b))
         + card (fill b {(c, r)})"
    by blast
  have d2: "cols b2 = cols b" "rows b2 = rows b" "num_mines b2 = num_mines b"
    using b2(3) by (simp_all add: same_layout_def)
  have c2: "count_inv b2"
    using cnt G b2(7,8) same_layout_mine_count[OF b2(3)] d2
    by (auto simp: count_inv_def)
  let ?b' = "check_win b2"
  have cells: "cells ?b' = cells b2"
    using check_win_count_cells[OF c2 b2(2)] b2(4) placed dims d2 by simp
  have co: "cell_of ?b' q = cell_of b2 q" for q
    using cells by (intro cell_of_cells_cong) simp_all
  have 1: "reveal shuffle b c r = Some ?b'"
    using b2(1) inb op by (simp add: reveal_placed[OF wf placed] openable_def)
  have 2: "same_layout b ?b'"
    using b2(3) check_win_layout by (rule same_layout_trans)
  have 3: "wf_board ?b'" using same_layout_wf[OF 2] wf by simp
  have 4: "count_inv ?b'"
    using c2 cells by (rule count_inv_cells_cong) simp_all
  from 1 2 3 4 b2(4,5,6,7) placed show ?thesis
    by (auto simp: co)
qed

subsection \<open>The closure of the revealed zero cells\<close>

lemma closed_inv_fill:
  assumes wf: "wf_board b" and cl: "closed_inv b" and lay: "same_layout b b'"
    and t: "t \<in> inb_set b"
    and rev: "\<forall>q \<in> inb_set b. is_revealed (state (cell_of b' q)) \<longleftrightarrow>
                 is_revealed (state (cell_of b q)) \<or> q \<in> fill b {t}"
  shows "closed_inv b'"
  unfolding closed_inv_def
proof (intro ballI impI)
  fix p q
  assume p: "p \<in> inb_set b'" "is_revealed (state (cell_of b' p)) \<and> zero_cell b' p"
    and q: "q \<in> set (neighbors b' (fst p) (snd p))"
  have pin: "p \<in> inb_set b" using p(1) same_layout_inb[OF lay] by simp
  have qn: "q \<in> set (neighbors b (fst p) (snd p))"
    using q same_layout_neighbors[OF lay] by simp
  then have qin: "q \<in> inb_set b" using set_neighbors_inb by blast
  have z: "zero_cell b p" using p(2) same_layout_zero_cell(1)[OF lay wf pin] by simp
  have "is_revealed (state (cell_of b q)) \<or> is_mine (state (cell_of b q))
        \<or> is_flagged (state (cell_of b q)) \<or> q \<in> fill b {t}"
  proof (cases "is_revealed (state (cell_of b p))")
    case True
    with cl pin z qn show ?thesis by (auto simp: closed_inv_def)
  next
    case False
    with rev pin p(2) have f: "p \<in> fill b {t}" by blast
    then have "expanding b p" using z by (simp add: fill_def expanding_def zero_cell_def)
    with f qn have "reach b {t} q" by (auto simp: fill_def intro: reach.step)
    then show ?thesis by (auto simp: fill_def openable_def)
  qed
  with rev qin same_layout_zero_cell(2,3)[OF lay wf qin]
  show "is_revealed (state (cell_of b' q)) \<or> is_mine (state (cell_of b' q))
        \<or> is_flagged (state (cell_of b' q))"
    by auto
qed

subsection \<open>The mine path of reveal\<close>

lemma cell_of_reveal_all_mines:
  assumes "wf_board b" "q \<in> inb_set b"
  shows "cell_of (reveal_all_mines (b\<lparr>game_over := True\<rparr>)) q =
     (if is_mine (state (cell_of b q))
      then (cell_of b q)\<lparr>state := (state (cell_of b q))\<lparr>is_revealed := True\<rparr>\<rparr> else cell_of b q)"
  using inb_index(1)[OF assms] by (simp add: cell_of_def reveal_all_mines_def index_def)

lemma count_inv_mine_path:
  assumes "count_inv b"
  shows "count_inv (reveal_all_mines (b\<lparr>game_over := True\<rparr>))"
proof -
  let ?f = "\<lambda>cl. if is_mine (state cl) then cl\<lparr>state := (state cl)\<lparr>is_revealed := True\<rparr>\<rparr> else cl"
  let ?b' = "reveal_all_mines (b\<lparr>game_over := True\<rparr>)"
  have 1: "length (filter (\<lambda>cl. is_revealed (state cl) \<and> \<not> is_mine (state cl)) (map ?f cs))
      = length (filter (\<lambda>cl. is_revealed (state cl) \<and> \<not> is_mine (state cl)) cs)"
    for cs :: "cell list"
    by (induction cs) auto
  have 2: "length (filter (\<lambda>cl. is_mine (state cl)) (map ?f cs))
      = length (filter (\<lambda>cl. is_mine (state cl)) cs)"
    for cs :: "cell list"
    by (induction cs) auto
  have c: "cells ?b' = map ?f (cells b)" by (simp add: reveal_all_mines_def)
  have "revealed_count ?b' = revealed_count b" "mines_placed ?b' = mines_placed b"
    "cols ?b' = cols b" "rows ?b' = rows b" "num_mines ?b' = num_mines b"
    by simp_all
  with assms show ?thesis unfolding count_inv_def c 1 2 by metis
qed

lemma closed_inv_mine_path:
  assumes "wf_board b" "closed_inv b"
  shows "closed_inv (reveal_all_mines (b\<lparr>game_over := True\<rparr>))"
proof -
  let ?b' = "reveal_all_mines (b\<lparr>game_over := True\<rparr>)"
  have inb: "inb_set ?b' = inb_set b" by (simp add: inb_set_def)
  have nb: "neighbors ?b' c r = neighbors b c r" for c r
    by (simp add: neighbors_def is_inbounds_def)
  note co = cell_of_reveal_all_mines[OF assms(1)]
  show ?thesis
    unfolding closed_inv_def inb nb
  proof (intro ballI impI)
    fix p q
    assume p: "p \<in> inb_set b" "is_revealed (state (cell_of ?b' p)) \<and> zero_cell ?b' p"
      and q: "q \<in> set (neighbors b (fst p) (snd p))"
    have qin: "q \<in> inb_set b" using q set_neighbors_inb by blast
    have "is_revealed (state (cell_of b p)) \<and> zero_cell b p"
      using p(2) co[OF p(1)] by (auto simp: zero_cell_def split: if_splits)
    with assms(2) p(1) q have "is_revealed (state (cell_of b q)) \<or> is_mine (state (cell_of b q))
        \<or> is_flagged (state (cell_of b q))"
      by (auto simp: closed_inv_def)
    then show "is_revealed (state (cell_of ?b' q)) \<or> is_mine (state (cell_of ?b' q))
        \<or> is_flagged (state (cell_of ?b' q))"
      using co[OF qin] by auto
  qed
qed

subsection \<open>The first reveal opens the whole safe zone\<close>

lemma length_pool_forbidden:
  "nat (cols b) * nat (rows b) \<le> length (pool b sc sr) + card (forbidden b sc sr)"
proof -
  let ?xs = "positions (cols b) (rows b)"
  let ?F = "forbidden b sc sr"
  have "finite ?F" by (simp add: forbidden_def)
  have "length (filter (\<lambda>p. p \<in> ?F) ?xs) = card (set (filter (\<lambda>p. p \<in> ?F) ?xs))"
    by (simp add: distinct_card distinct_positions del: set_filter)
  also have "\<dots> \<le> card ?F"
    using \<open>finite ?F\<close> by (intro card_mono) auto
  finally have "length (filter (\<lambda>p. p \<in> ?F) ?xs) \<le> card ?F" .
  moreover have "length (filter (\<lambda>p. p \<in> ?F) ?xs) + length (filter (\<lambda>p. p \<notin> ?F) ?xs) = length ?xs"
    by (rule sum_length_filter_compl)
  ultimately show ?thesis
    by (simp add: pool_def length_positions)
qed

lemma length_py_slice_to_le:
  "0 \<le> n \<Longrightarrow> int (length (py_slice_to xs n)) = min n (int (length xs))"
  by (simp add: py_slice_to_def)

lemma reachable_unplaced:
  "reachable b \<Longrightarrow> \<not> mines_placed b \<Longrightarrow> \<exists>w h m. Board w h m = Some b"
proof (induction rule: reachable.induct)
  case (constructed w h mines b)
  then show ?case by blast
next
  case (revealed b shuffle c r b')
  from reveal_total[OF reachable_wf[OF revealed(1)] revealed(2), of c r] revealed(3,5)
  have "\<not> mines_placed b" "\<not> is_inbounds b c r" by auto
  with revealed show ?case by (simp add: reveal_def)
next
  case (toggled b c r)
  then show ?case by (simp add: toggle_flag_def)
qed

lemma first_reveal_invs:
  assumes b0: "Board w h m = Some b0" and sh: "is_shuffle shuffle" and inb: "is_inbounds b0 c r"
  shows "\<exists>pb b'. place_mines shuffle b0 c r = Some pb \<and> reveal shuffle b0 c r = Some b'
           \<and> wf_board pb \<and> same_layout pb b' \<and> openable pb (c, r) \<and> closed_inv pb
           \<and> (\<forall>q \<in> inb_set pb. is_revealed (state (cell_of b' q)) \<longleftrightarrow>
                 is_revealed (state (cell_of pb q)) \<or> q \<in> fill pb {(c, r)})
           \<and> count_inv b' \<and> closed_inv b'"
proof -
  let ?mp = "mine_positions shuffle b0 c r"
  from first_reveal[OF assms] obtain pb where pb:
    "place_mines shuffle b0 c r = Some pb" "wf_board pb" "mines_placed pb"
    "pb = b0\<lparr>cells := cells pb, mines_placed := True\<rparr>"
    "\<forall>q \<in> inb_set b0. is_mine (state (cell_of pb q)) = (q \<in> set ?mp)
        \<and> \<not> is_revealed (state (cell_of pb q)) \<and> \<not> is_flagged (state (cell_of pb q))
        \<and> (\<not> is_mine (state (cell_of pb q)) \<longrightarrow> adjacent (state (cell_of pb q)) = mine_count pb q)"
    "openable pb (c, r)"
    by blast
  note s = placed_scalars[OF pb(4)]
  note f0 = Board_fresh[OF b0]
  have dims: "0 < cols pb" "0 < rows pb"
    using inb s(1,2) by (simp_all add: is_inbounds_def)
  have inb': "is_inbounds pb c r" using inb s(9) by simp
  have t: "(c, r) \<in> inb_set pb" using inb' by (simp add: inb_set_iff)
  have F: "forbidden b0 c r \<subseteq> inb_set b0"
    using inb set_neighbors_inb[of b0 c r] by (auto simp: forbidden_def inb_set_iff)
  have nomine: "\<not> is_mine (state (cell_of pb q))" if "q \<in> forbidden b0 c r" for q
    using pb(5) F that mine_positions_subset[OF sh, of b0 c r] by blast
  \<comment> \<open>nothing is revealed yet\<close>
  have unrev: "\<not> is_revealed (state cl)" if "cl \<in> set (cells pb)" for cl
    using cells_cell_of[OF pb(2) that] pb(5) s(8) by auto
  then have cnt: "revealed_count pb =
      int (length (filter (\<lambda>cl. is_revealed (state cl) \<and> \<not> is_mine (state cl)) (cells pb)))"
    using s(5) f0(5) by (simp add: filter_False)
  have cl: "closed_inv pb"
    using pb(5) s(8) by (simp add: closed_inv_def)
  \<comment> \<open>the target has no mine around it, so its neighbours are reached\<close>
  have "filter (\<lambda>q. is_mine (state (cell_of pb q))) (neighbors pb c r) = []"
    using nomine s(10)[of c r] by (auto simp: filter_empty_conv forbidden_def)
  then have "mine_count pb (c, r) = 0" by (simp add: mine_count_def)
  then have ex: "expanding pb (c, r)"
    using pb(5,6) t s(8) by (auto simp: expanding_def openable_def)
  have sub: "forbidden b0 c r \<subseteq> fill pb {(c, r)}"
  proof
    fix q assume q: "q \<in> forbidden b0 c r"
    then have "reach pb {(c, r)} q"
      using ex s(10)[of c r] by (auto simp: forbidden_def intro: reach.start reach.step)
    moreover have "openable pb q"
      using pb(5) F q nomine[OF q] by (auto simp: openable_def)
    ultimately show "q \<in> fill pb {(c, r)}" by (simp add: fill_def)
  qed
  have "finite (fill pb {(c, r)})" using finite_fill[of "{(c, r)}" pb] t by simp
  with sub have cardF: "card (forbidden b0 c r) \<le> card (fill pb {(c, r)})"
    by (rule card_mono[rotated])
  \<comment> \<open>the number of mines\<close>
  have "{q \<in> inb_set pb. is_mine (state (cell_of pb q))} = set ?mp"
    using pb(5) mine_positions_subset[OF sh, of b0 c r] by (auto simp: s(8))
  then have mines: "length (filter (\<lambda>cl. is_mine (state cl)) (cells pb)) = length ?mp"
    by (simp add: count_cells[OF pb(2)] distinct_card[OF distinct_mine_positions[OF sh]])
  have total: "cols pb * rows pb = int (nat (cols b0) * nat (rows b0))"
    using dims s(1,2) by simp
  have G: "int (length (filter (\<lambda>cl. is_mine (state cl)) (cells pb))) = num_mines pb
        \<or> num_mines pb < 0
        \<or> cols pb * rows pb - num_mines pb < revealed_count pb + int (card (fill pb {(c, r)}))"
  proof (cases "0 \<le> num_mines b0")
    case False
    then show ?thesis by (simp add: s(3))
  next
    case n0: True
    show ?thesis
    proof (cases "num_mines b0 \<le> int (length (pool b0 c r))")
      case True
      then have "int (length ?mp) = num_mines b0"
        using n0 by (simp add: mine_positions_def length_py_slice_to shuffle_facts[OF sh])
      then show ?thesis by (simp add: mines s(3))
    next
      case False
      have "cols pb * rows pb \<le> int (length (pool b0 c r)) + int (card (forbidden b0 c r))"
        using length_pool_forbidden[of b0 c r] unfolding total by linarith
      with False cardF show ?thesis by (simp add: s(3,5) f0(5))
    qed
  qed
  from reveal_flood_path[OF pb(2,3) dims cnt G inb' pb(6), of shuffle] obtain b' where b':
    "reveal shuffle pb c r = Some b'" "same_layout pb b'"
    "\<forall>q \<in> inb_set pb. is_revealed (state (cell_of b' q)) \<longleftrightarrow>
        is_revealed (state (cell_of pb q)) \<or> q \<in> fill pb {(c, r)}"
    "count_inv b'"
    by blast
  from reveal_lazy[OF Board_wf[OF b0] sh inb] pb(1) f0(4)
  have "reveal shuffle b0 c r = reveal shuffle pb c r" by auto
  with b' pb(1,2,6) cl closed_inv_fill[OF pb(2) cl b'(2) t b'(3)] show ?thesis by auto
qed

lemma reveal_placed_invs:
  assumes "basic_inv b" "count_inv b" "closed_inv b" "mines_placed b"
    "reveal shuffle b c r = Some b'"
  shows "count_inv b' \<and> closed_inv b'"
proof -
  have wf: "wf_board b" and dims: "0 < cols b" "0 < rows b"
    using assms(1,4) by (simp_all add: basic_inv_def)
  show ?thesis
  proof (cases "is_inbounds b c r \<and> openable b (c, r)")
    case True
    then have t: "(c, r) \<in> inb_set b" by (simp add: inb_set_iff)
    have cnt: "revealed_count b =
        int (length (filter (\<lambda>cl. is_revealed (state cl) \<and> \<not> is_mine (state cl)) (cells b)))"
      using assms(2) by (simp add: count_inv_def)
    have G: "int (length (filter (\<lambda>cl. is_mine (state cl)) (cells b))) = num_mines b
        \<or> num_mines b < 0
        \<or> cols b * rows b - num_mines b < revealed_count b + int (card (fill b {(c, r)}))"
      using assms(2,4) by (auto simp: count_inv_def)
    from reveal_flood_path[OF wf assms(4) dims cnt G, of shuffle] True assms(5)
    have b': "same_layout b b'"
      "\<forall>q \<in> inb_set b. is_revealed (state (cell_of b' q)) \<longleftrightarrow>
          is_revealed (state (cell_of b q)) \<or> q \<in> fill b {(c, r)}"
      "count_inv b'"
      by auto
    from closed_inv_fill[OF wf assms(3) b'(1) t b'(2)] b'(3) show ?thesis by simp
  next
    case False
    with assms(5) have "b' = b \<or> b' = reveal_all_mines (b\<lparr>game_over := True\<rparr>)"
      by (auto simp: reveal_placed[OF wf assms(4)] openable_def split: if_splits)
    with assms(2,3) count_inv_mine_path[OF assms(2)] closed_inv_mine_path[OF wf assms(3)]
    show ?thesis by auto
  qed
qed

lemma reachable_invs: "reachable b \<Longrightarrow> count_inv b \<and> closed_inv b"
proof (induction rule: reachable.induct)
  case (constructed w h mines b)
  have "\<not> is_revealed (state cl)" if "cl \<in> set (cells b)" for cl
    using Board_fresh(8)[OF constructed that] by (simp add: CellState_def)
  moreover have "\<not> is_revealed (state (cell_of b q))" if "q \<in> inb_set b" for q
    using Board_fresh_cell[OF constructed that] by (simp add: CellState_def)
  ultimately show ?case
    using Board_fresh(4,5)[OF constructed]
    by (simp add: count_inv_def closed_inv_def filter_False)
next
  case (revealed b shuffle c r b')
  note inv = reachable_basic_inv[OF revealed(1)]
  show ?case
  proof (cases "is_inbounds b c r")
    case False
    with revealed show ?thesis by (simp add: reveal_def)
  next
    case inb: True
    show ?thesis
    proof (cases "mines_placed b")
      case True
      from revealed.IH have "count_inv b" "closed_inv b" by simp_all
      then show ?thesis by (rule reveal_placed_invs[OF inv _ _ True revealed(3)])
    next
      case False
      from reachable_unplaced[OF revealed(1) False] obtain w h m where "Board w h m = Some b"
        by blast
      from first_reveal_invs[OF this revealed(2) inb] revealed(3) show ?thesis by auto
    qed
  qed
next
  case (toggled b c r)
  then show ?case by (simp add: toggle_flag_def)
qed

subsection \<open>The region of a target\<close>

lemma deltas_iff:
  "(dc, dr) \<in> set deltas \<longleftrightarrow> \<bar>dc\<bar> \<le> 1 \<and> \<bar>dr\<bar> \<le> 1 \<and> (dc, dr) \<noteq> (0, 0)"
proof -
  have a: "\<bar>x\<bar> \<le> 1 \<longleftrightarrow> x = -1 \<or> x = 0 \<or> x = 1" for x :: int by arith
  show ?thesis unfolding a by (auto simp: deltas_def)
qed

lemma shift_image:
  "(nc, nr) \<in> (\<lambda>(dc, dr). (c + dc, r + dr)) ` S \<longleftrightarrow> (nc - c, nr - r) \<in> S"
  for c r nc nr :: int
proof
  assume "(nc, nr) \<in> (\<lambda>(dc, dr). (c + dc, r + dr)) ` S"
  then obtain dc dr where "(dc, dr) \<in> S" "nc = c + dc" "nr = r + dr" by auto
  then show "(nc - c, nr - r) \<in> S" by simp
next
  assume "(nc - c, nr - r) \<in> S"
  then have "(\<lambda>(dc, dr). (c + dc, r + dr)) (nc - c, nr - r) \<in> (\<lambda>(dc, dr). (c + dc, r + dr)) ` S"
    by (rule imageI)
  then show "(nc, nr) \<in> (\<lambda>(dc, dr). (c + dc, r + dr)) ` S" by simp
qed

lemma neighbors_iff:
  "(nc, nr) \<in> set (neighbors b c r) \<longleftrightarrow>
     is_inbounds b nc nr \<and> \<bar>nc - c\<bar> \<le> 1 \<and> \<bar>nr - r\<bar> \<le> 1 \<and> (nc, nr) \<noteq> (c, r)"
proof -
  have "(nc, nr) \<in> set (neighbors b c r) \<longleftrightarrow>
        is_inbounds b nc nr \<and> (nc, nr) \<in> (\<lambda>(dc, dr). (c + dc, r + dr)) ` set deltas"
    unfolding neighbors_def by auto
  then show ?thesis unfolding shift_image deltas_iff by auto
qed

lemma neighbors_sym:
  assumes "(nc, nr) \<in> set (neighbors b c r)" "is_inbounds b c r"
  shows "(c, r) \<in> set (neighbors b nc nr)"
  using assms unfolding neighbors_iff by auto

lemma fill_single:
  assumes "openable b t" "\<not> expanding b t"
  shows "fill b {t} = {t}"
proof -
  have "q = t" if "reach b {t} q" for q
    using that assms(2) by (induction rule: reach.induct) auto
  with assms(1) show ?thesis by (auto simp: fill_def intro: reach.start)
qed

lemma reach_region:
  assumes "reach b {t} q"
  shows "(expanding b q \<longrightarrow> q \<in> region b t)
       \<and> (q = t \<or> (\<exists>p \<in> region b t. q \<in> set (neighbors b (fst p) (snd p))))"
  using assms
proof (induction rule: reach.induct)
  case (start p)
  then show ?case by (auto intro: region.target)
next
  case (step p q)
  then have p: "p \<in> region b t" by simp
  moreover have "q \<in> region b t" if "expanding b q"
    using p step(3) that
    by (auto intro!: region.grow[of p] simp: expanding_def openable_def zero_cell_def)
  ultimately show ?case using step(3) by blast
qed

lemma region_expanding:
  assumes cl: "closed_inv b" and t: "t \<in> inb_set b" "expanding b t" and q: "q \<in> region b t"
  shows "q \<in> inb_set b \<and> expanding b q \<and> reach b {t} q"
  using q
proof (induction rule: region.induct)
  case target
  with t show ?case by (auto intro: reach.start)
next
  case (grow p q)
  then have p: "p \<in> inb_set b" "expanding b p" "reach b {t} p" by simp_all
  have qin: "q \<in> inb_set b" using grow(2) set_neighbors_inb by blast
  have "p \<in> set (neighbors b (fst q) (snd q))"
    using neighbors_sym[of "fst q" "snd q" b "fst p" "snd p"] grow(2) p(1)
    by (simp add: inb_set_iff[symmetric])
  moreover have "\<not> (is_revealed (state (cell_of b p)) \<or> is_mine (state (cell_of b p))
      \<or> is_flagged (state (cell_of b p)))"
    using p(2) by (simp add: expanding_def openable_def)
  ultimately have "\<not> is_revealed (state (cell_of b q))"
    using cl qin grow(3) by (auto simp: closed_inv_def)
  with grow(3) have "expanding b q"
    by (simp add: expanding_def openable_def zero_cell_def)
  with qin p(2,3) grow(2) show ?case by (auto intro: reach.step)
qed

lemma fill_region:
  assumes cl: "closed_inv b" and t: "t \<in> inb_set b" "expanding b t"
  shows "fill b {t} = (region b t \<union> border b t) - {q. is_revealed (state (cell_of b q))}"
proof (intro set_eqI iffI)
  fix q assume q: "q \<in> fill b {t}"
  then have op: "openable b q" and r: "reach b {t} q" by (simp_all add: fill_def)
  from reach_region[OF r] op have "q \<in> region b t \<union> border b t"
    by (auto simp: border_def openable_def intro: region.target)
  with op show "q \<in> (region b t \<union> border b t) - {q. is_revealed (state (cell_of b q))}"
    by (simp add: openable_def)
next
  fix q assume q: "q \<in> (region b t \<union> border b t) - {q. is_revealed (state (cell_of b q))}"
  show "q \<in> fill b {t}"
  proof (cases "q \<in> region b t")
    case True
    from region_expanding[OF cl t True] show ?thesis by (simp add: fill_def expanding_def)
  next
    case False
    with q obtain p where p: "p \<in> region b t" "q \<in> set (neighbors b (fst p) (snd p))"
      "\<not> is_flagged (state (cell_of b q))" "\<not> is_mine (state (cell_of b q))"
      by (auto simp: border_def)
    from region_expanding[OF cl t p(1)] p(2) have "reach b {t} q"
      by (auto intro: reach.step)
    with q p(3,4) show ?thesis by (simp add: fill_def openable_def)
  qed
qed

lemma play_reachable:
  assumes "reachable b" "is_shuffle shuffle" "play shuffle b acts = Some b'"
  shows "reachable b'"
  using assms(1,3)
proof (induction acts arbitrary: b)
  case Nil
  then show ?case by simp
next
  case (Cons a acts)
  show ?case
  proof (cases a)
    case (Reveal c r)
    with Cons.prems(2) obtain b1 where b1: "reveal shuffle b c r = Some b1"
      "play shuffle b1 acts = Some b'"
      by (auto split: option.splits)
    from reachable.revealed[OF Cons.prems(1) assms(2) b1(1)] b1(2) show ?thesis
      by (rule Cons.IH)
  next
    case (Toggle_flag c r)
    with Cons.prems(2) have "play shuffle (toggle_flag b c r) acts = Some b'" by simp
    with reachable.toggled[OF Cons.prems(1)] show ?thesis by (rule Cons.IH)
  qed
qed

lemma row_board_played: "new_game id 10 1 1 [Reveal 0 0, Reveal 3 0] = Some row_board"
  by (simp add: new_game_def eval_defs row_board_def demo_cell_def)

lemma row_board_reachable: "reachable row_board"
proof -
  obtain b0 where b0: "Board 10 1 1 = Some b0" by (simp add: Board_def)
  with row_board_played have "play id b0 [Reveal 0 0, Reveal 3 0] = Some row_board"
    by (simp add: new_game_def)
  moreover have "is_shuffle id" by (simp add: is_shuffle_def)
  ultimately show ?thesis
    using play_reachable[OF reachable.constructed[OF b0]] by blast
qed

lemma row_board_revealed: "reveal id row_board 5 0 = Some row_board_after"
  by (simp add: eval_defs row_board_def row_board_after_def demo_cell_def)

lemma reveal_fill:
  assumes "wf_board b" "mines_placed b" "count_inv b" "is_inbounds b c r" "openable b (c, r)"
  shows "\<exists>b'. reveal shuffle b c r = Some b'
           \<and> newly_revealed b b' = fill b {(c, r)}
           \<and> revealed_count b' = revealed_count b + int (card (fill b {(c, r)}))"
proof -
  have dims: "0 < cols b" "0 < rows b"
    using assms(4) by (simp_all add: is_inbounds_def)
  have cnt: "revealed_count b =
      int (length (filter (\<lambda>cl. is_revealed (state cl) \<and> \<not> is_mine (state cl)) (cells b)))"
    using assms(3) by (simp add: count_inv_def)
  have G: "int (length (filter (\<lambda>cl. is_mine (state cl)) (cells b))) = num_mines b
      \<or> num_mines b < 0
      \<or> cols b * rows b - num_mines b < revealed_count b + int (card (fill b {(c, r)}))"
    using assms(2,3) by (auto simp: count_inv_def)
  from reveal_flood_path[OF assms(1,2) dims cnt G assms(4,5), of shuffle] obtain b' where b':
    "reveal shuffle b c r = Some b'"
    "\<forall>q \<in> inb_set b. is_revealed (state (cell_of b' q)) \<longleftrightarrow>
        is_revealed (state (cell_of b q)) \<or> q \<in> fill b {(c, r)}"
    "revealed_count b' = revealed_count b + int (card (fill b {(c, r)}))"
    by blast
  have "fill b {(c, r)} \<subseteq> inb_set b"
    using fill_inb[of "{(c, r)}" b] assms(4) by (simp add: inb_set_iff)
  then have "newly_revealed b b' = fill b {(c, r)}"
    using b'(2) fill_openable[of b "{(c, r)}"] by (auto simp: newly_revealed_def openable_def)
  with b'(1,3) show ?thesis by blast
qed

subsection \<open>The board with a flag\<close>

lemma flag_board_cells:
  "cell_of flag_board (0, 0) = demo_cell 0 False False 0"
  "is_flagged (state (cell_of flag_board (1, 0)))"
  "\<not> is_mine (state (cell_of flag_board (1, 0)))"
  "\<not> is_revealed (state (cell_of flag_board (1, 0)))"
  "cell_of flag_board (2, 0) = demo_cell 2 True False 0"
  "cell_of flag_board (3, 0) = demo_cell 3 False True 1"
  "cell_of flag_board (4, 0) = demo_cell 4 False True 0"
  by (simp_all add: cell_of_def index_def flag_board_def)

lemma flag_board_inb: "inb_set flag_board = {(0, 0), (1, 0), (2, 0), (3, 0), (4, 0)}"
proof -
  have "{0..<5::int} = {0, 1, 2, 3, 4}" "{0..<1::int} = {0}" by auto
  then show ?thesis by (simp add: inb_set_def flag_board_def)
qed

lemma flag_board_invs:
  "wf_board flag_board" "mines_placed flag_board" "count_inv flag_board" "closed_inv flag_board"
proof -
  show "wf_board flag_board" "mines_placed flag_board"
    by (simp_all add: wf_board_def flag_board_def)
  show "count_inv flag_board"
    by (simp add: count_inv_def flag_board_def demo_cell_def)
  have n: "set (neighbors flag_board 4 0) = {(3, 0)}"
    by (auto simp: neighbors_iff is_inbounds_def flag_board_def)
  show "closed_inv flag_board"
    unfolding closed_inv_def flag_board_inb
    by (simp add: flag_board_cells zero_cell_def demo_cell_def n)
qed

section \<open>Construction\<close>

text \<open>
  C5 as stated fails: the constructor validates nothing and never raises. A 1 by 1
  board with no mine violates \<open>mines \<le> cols * rows - 9\<close> and is constructed all the
  same.
\<close>

theorem C5_counterexample:
  "Board 1 1 0 =
     Some \<lparr>cols = 1, rows = 1, num_mines = 0, cells = [Cell 0 0],
           mines_placed = False, revealed_count = 0, game_over = False, win = False\<rparr>"
  by (simp add: Board_def positions_def py_range_def upto.simps)

text \<open>
  C5, amended: construction performs no validation. For every \<open>cols\<close>, \<open>rows\<close> and
  \<open>mines\<close>, also those violating the preconditions, it succeeds with a board that
  stores the three arguments, has one default cell for each coordinate in row-major
  order (none when \<open>cols \<le> 0\<close> or \<open>rows \<le> 0\<close>), no mines placed, a revealed count of
  0 and neither game over nor win.
\<close>

theorem C5_construction_total:
  "\<exists>b. Board w h m = Some b \<and> cols b = w \<and> rows b = h \<and> num_mines b = m
       \<and> length (cells b) = nat w * nat h
       \<and> map (\<lambda>cl. (col cl, row cl)) (cells b) = positions w h
       \<and> (\<forall>cl \<in> set (cells b). state cl = CellState)
       \<and> \<not> mines_placed b \<and> revealed_count b = 0 \<and> \<not> game_over b \<and> \<not> win b"
  by (auto simp: Board_def length_positions Cell_def comp_def case_prod_beta)

theorem C5_construction_total_witness:
  "\<exists>b. Board 1 1 5 = Some b \<and> cols b = 1 \<and> rows b = 1 \<and> num_mines b = 5
       \<and> length (cells b) = 1
       \<and> map (\<lambda>cl. (col cl, row cl)) (cells b) = [(0, 0)]
       \<and> (\<forall>cl \<in> set (cells b). state cl = CellState)
       \<and> \<not> mines_placed b \<and> revealed_count b = 0 \<and> \<not> game_over b \<and> \<not> win b"
  using C5_construction_total [of 1 1 5]
  by (simp add: positions_def py_range_def upto.simps)

section \<open>Flags\<close>

text \<open>
  C8 at a failing input: on the fresh 3 by 3 board the cell (0, 0) is in bounds,
  not revealed and not flagged, and after \<^verbatim>\<open>toggle_flag(0, 0)\<close> it is still not
  flagged, where the claim has the flag inverted. The method body is \<^verbatim>\<open>pass\<close>.
\<close>

theorem C8_toggle_flag_does_not_toggle:
  "map_option (\<lambda>b. (is_inbounds b 0 0,
                     map_option (\<lambda>cl. (is_revealed (state cl), is_flagged (state cl)))
                       (cell_at b (index b 0 0)),
                     map_option (\<lambda>cl. is_flagged (state cl))
                       (cell_at (toggle_flag b 0 0) (index (toggle_flag b 0 0) 0 0))))
     (Board 3 3 0)
   = Some (True, Some (False, False), Some False)"
  by (simp add: Board_def positions_def py_range_def upto.simps toggle_flag_def is_inbounds_def
      cell_at_def py_index_def index_def Cell_def CellState_def)

text \<open>
  C9 at a failing input: the fresh 3 by 3 board has no flagged cell, and
  \<^verbatim>\<open>flagged_count()\<close> returns Python's \<^verbatim>\<open>None\<close>, not the number 0. The board is left
  as it is. The method body is \<^verbatim>\<open>pass\<close>.
\<close>

theorem C9_flagged_count_returns_none:
  "map_option (\<lambda>b. (fst (flagged_count b), snd (flagged_count b) = b,
                     length (filter (\<lambda>cl. is_flagged (state cl)) (cells b))))
     (Board 3 3 0)
   = Some (PyNone, True, 0)"
  by (simp add: Board_def positions_def py_range_def upto.simps flagged_count_def
      Cell_def CellState_def)

section \<open>What reveal changes\<close>

text \<open>
  C10: once the mines are placed, \<^verbatim>\<open>reveal\<close> returns a board with the same
  dimensions and mine count, with the mines still placed, and with cells that agree
  with the old ones in position, \<^verbatim>\<open>is_mine\<close>, \<^verbatim>\<open>is_flagged\<close> and \<^verbatim>\<open>adjacent\<close>. Only
  \<^verbatim>\<open>is_revealed\<close>, \<^verbatim>\<open>revealed_count\<close>, \<^verbatim>\<open>game_over\<close> and \<^verbatim>\<open>win\<close> are left free.
  The board only has to be well formed, which every observable board is
  (\<open>reachable_wf\<close>).
\<close>

theorem C10_reveal_frame:
  assumes "wf_board b" and "mines_placed b"
  shows "\<exists>b'. reveal shuffle b c r = Some b'
           \<and> cols b' = cols b \<and> rows b' = rows b \<and> num_mines b' = num_mines b
           \<and> mines_placed b' \<and> length (cells b') = length (cells b)
           \<and> (\<forall>i < length (cells b).
                 is_mine (state (cells b' ! i)) = is_mine (state (cells b ! i))
               \<and> adjacent (state (cells b' ! i)) = adjacent (state (cells b ! i))
               \<and> is_flagged (state (cells b' ! i)) = is_flagged (state (cells b ! i))
               \<and> col (cells b' ! i) = col (cells b ! i) \<and> row (cells b' ! i) = row (cells b ! i))"
proof -
  have "\<exists>b'. reveal shuffle b c r = Some b' \<and> same_layout b b' \<and> mines_placed b'"
  proof (cases "is_inbounds b c r \<and> openable b (c, r)")
    case True
    then have "set [(c, r)] \<subseteq> inb_set b" by (simp add: inb_set_iff)
    from flood_total[OF assms(1) this, of "{}"] obtain b2 where
      "flood b [(c, r)] {} = Some b2" "same_layout b b2" "mines_placed b2"
      using assms(2) by auto
    with True assms show ?thesis
      by (auto simp: reveal_placed openable_def intro: same_layout_trans check_win_layout)
  next
    case False
    with assms show ?thesis
      by (auto simp: reveal_placed openable_def same_layout_def reveal_all_mines_def frame_def)
  qed
  then obtain b' where b': "reveal shuffle b c r = Some b'" "same_layout b b'" "mines_placed b'"
    by blast
  have "frame (cells b' ! i) = frame (cells b ! i)" if "i < length (cells b)" for i
    using same_layout_nth[OF b'(2) that] .
  then show ?thesis
    using b' same_layout_length[OF b'(2)] by (auto simp: frame_def same_layout_def)
qed

theorem C10_reveal_frame_witness:
  "wf_board demo_board \<and> mines_placed demo_board
   \<and> (\<exists>b'. reveal rev demo_board 0 0 = Some b'
           \<and> cols b' = 5 \<and> rows b' = 1 \<and> num_mines b' = 1
           \<and> mines_placed b' \<and> length (cells b') = 5
           \<and> (\<forall>i < 5.
                 is_mine (state (cells b' ! i)) = is_mine (state (cells demo_board ! i))
               \<and> adjacent (state (cells b' ! i)) = adjacent (state (cells demo_board ! i))
               \<and> is_flagged (state (cells b' ! i)) = is_flagged (state (cells demo_board ! i))
               \<and> col (cells b' ! i) = col (cells demo_board ! i)
               \<and> row (cells b' ! i) = row (cells demo_board ! i)))"
proof -
  have h: "wf_board demo_board" "mines_placed demo_board"
    by (simp_all add: demo_board_wf) (simp add: demo_board_def)
  have f: "cols demo_board = 5" "rows demo_board = 1" "num_mines demo_board = 1"
    "length (cells demo_board) = 5"
    by (simp_all add: demo_board_def)
  show ?thesis
    using h C10_reveal_frame [OF h, of rev 0 0] unfolding f by simp
qed

section \<open>Loss\<close>

text \<open>
  C2: on a board with the mines placed, \<^verbatim>\<open>reveal\<close> returns; when the target is in
  bounds and is a mine that is neither revealed nor flagged, the result has
  \<^verbatim>\<open>game_over\<close> set, every mine cell revealed and otherwise as it was, every other cell
  untouched and the remaining fields unchanged; for every other target \<^verbatim>\<open>game_over\<close>
  is what it was before the call. The board only has to be well formed, which every
  observable board is (\<open>reachable_wf\<close>).
\<close>

theorem C2_reveal_mine:
  assumes "wf_board b" and "mines_placed b"
  shows "\<exists>b'. reveal shuffle b c r = Some b' \<and>
     (if is_inbounds b c r \<and> is_mine (state (cell_of b (c, r)))
         \<and> \<not> is_revealed (state (cell_of b (c, r))) \<and> \<not> is_flagged (state (cell_of b (c, r)))
      then game_over b' \<and> length (cells b') = length (cells b)
         \<and> (\<forall>i < length (cells b).
               cells b' ! i =
                 (if is_mine (state (cells b ! i))
                  then (cells b ! i)\<lparr>state := (state (cells b ! i))\<lparr>is_revealed := True\<rparr>\<rparr>
                  else cells b ! i))
         \<and> cols b' = cols b \<and> rows b' = rows b \<and> num_mines b' = num_mines b
         \<and> mines_placed b' \<and> revealed_count b' = revealed_count b \<and> win b' = win b
      else game_over b' = game_over b)"
proof (cases "is_inbounds b c r \<and> openable b (c, r)")
  case True
  then have "set [(c, r)] \<subseteq> inb_set b" by (simp add: inb_set_iff)
  from flood_total[OF assms(1) this, of "{}"] obtain b2 where
    "flood b [(c, r)] {} = Some b2" "game_over b2 = game_over b"
    by auto
  with True assms show ?thesis
    by (auto simp: reveal_placed openable_def)
next
  case False
  with assms show ?thesis
    by (auto simp: reveal_placed openable_def reveal_all_mines_def)
qed

theorem C2_reveal_mine_witness:
  "wf_board demo_board \<and> mines_placed demo_board \<and> is_inbounds demo_board 2 0
   \<and> is_mine (state (cell_of demo_board (2, 0)))
   \<and> \<not> is_revealed (state (cell_of demo_board (2, 0)))
   \<and> \<not> is_flagged (state (cell_of demo_board (2, 0)))
   \<and> (\<exists>b'. reveal rev demo_board 2 0 = Some b' \<and> game_over b'
          \<and> cells b' ! 2 = demo_cell 2 True True 0 \<and> cells b' ! 1 = demo_cell 1 False False 1)
   \<and> \<not> is_mine (state (cell_of demo_board (1, 0)))
   \<and> (\<exists>b'. reveal rev demo_board 1 0 = Some b' \<and> \<not> game_over b')"
proof -
  have h: "wf_board demo_board" "mines_placed demo_board"
    by (simp_all add: demo_board_wf) (simp add: demo_board_def)
  have c: "is_inbounds demo_board 2 0" "is_inbounds demo_board 1 0"
    "cell_of demo_board (2, 0) = demo_cell 2 True False 0"
    "cell_of demo_board (1, 0) = demo_cell 1 False False 1"
    "cells demo_board ! 2 = demo_cell 2 True False 0"
    "cells demo_board ! Suc 0 = demo_cell 1 False False 1"
    "length (cells demo_board) = 5" "\<not> game_over demo_board"
    by (simp_all add: demo_board_def is_inbounds_def cell_of_def index_def)
  have s: "is_mine (state (demo_cell 2 True False 0))" "\<not> is_revealed (state (demo_cell 2 True False 0))"
    "\<not> is_flagged (state (demo_cell 2 True False 0))" "\<not> is_mine (state (demo_cell 1 False False 1))"
    "(demo_cell 2 True False 0)\<lparr>state := (state (demo_cell 2 True False 0))\<lparr>is_revealed := True\<rparr>\<rparr>
       = demo_cell 2 True True 0"
    by (simp_all add: demo_cell_def)
  from C2_reveal_mine [OF h, of rev 2 0] obtain b' where
    "reveal rev demo_board 2 0 = Some b'" "game_over b'"
    "\<forall>i < 5. cells b' ! i =
        (if is_mine (state (cells demo_board ! i))
         then (cells demo_board ! i)\<lparr>state := (state (cells demo_board ! i))\<lparr>is_revealed := True\<rparr>\<rparr>
         else cells demo_board ! i)"
    by (auto simp: c s)
  moreover from this(3) have "cells b' ! 2 = demo_cell 2 True True 0" "cells b' ! 1 = demo_cell 1 False False 1"
    by (simp_all add: c s)
  moreover from C2_reveal_mine [OF h, of rev 1 0] obtain b'' where
    "reveal rev demo_board 1 0 = Some b''" "\<not> game_over b''"
    by (auto simp: c s)
  ultimately show ?thesis using h c s by auto
qed

section \<open>First click\<close>

text \<open>
  C3: on a freshly constructed board, for any outcome of the shuffle, the first
  \<^verbatim>\<open>reveal(c, r)\<close> at an in-bounds coordinate returns a board with the mines placed,
  where neither \<open>(c, r)\<close> nor any of its in-bounds neighbours is a mine, where
  \<open>(c, r)\<close> is revealed and \<^verbatim>\<open>game_over\<close> is not set. An in-bounds coordinate exists
  only when \<open>cols > 0\<close> and \<open>rows > 0\<close>; the bound on the mine count is not needed.
\<close>

theorem C3_first_reveal_safe:
  assumes "Board w h m = Some b0" and "is_shuffle shuffle" and "is_inbounds b0 c r"
  shows "\<exists>b'. reveal shuffle b0 c r = Some b' \<and> mines_placed b' \<and> \<not> game_over b'
           \<and> \<not> is_mine (state (cell_of b' (c, r)))
           \<and> (\<forall>q \<in> set (neighbors b' c r). \<not> is_mine (state (cell_of b' q)))
           \<and> is_revealed (state (cell_of b' (c, r)))"
proof -
  from first_reveal[OF assms] obtain b1 b2 where b1:
    "wf_board b1" "mines_placed b1" "b1 = b0\<lparr>cells := cells b1, mines_placed := True\<rparr>"
    "\<forall>q \<in> inb_set b0. is_mine (state (cell_of b1 q)) = (q \<in> set (mine_positions shuffle b0 c r))"
    "openable b1 (c, r)" "flood b1 [(c, r)] {} = Some b2"
    "reveal shuffle b0 c r = Some (check_win b2)"
    by blast
  note s1 = placed_scalars[OF b1(3)]
  have pin: "(c, r) \<in> inb_set b1" using assms(3) s1(8) by (simp add: inb_set_iff)
  from flood_head_revealed[OF b1(1) pin b1(5)] b1(6) have b2:
    "wf_board b2" "same_layout b1 b2" "mines_placed b2" "game_over b2 = game_over b1"
    "is_revealed (state (cell_of b2 (c, r)))"
    using b1(2) by auto
  let ?b' = "check_win b2"
  have lay: "same_layout b1 ?b'"
    using b2(2) check_win_layout by (rule same_layout_trans)
  have mine: "is_mine (state (cell_of ?b' q)) = (q \<in> set (mine_positions shuffle b0 c r))"
    if "q \<in> inb_set b0" for q
    using same_layout_cell_of[OF lay b1(1), of q] b1(4) that s1(8) by (simp add: frame_def)
  have forb: "q \<notin> set (mine_positions shuffle b0 c r)" if "q \<in> forbidden b0 c r" for q
    using mine_positions_subset[OF assms(2), of b0 c r] that by blast
  have nb: "neighbors ?b' c r = neighbors b0 c r"
    using same_layout_neighbors[OF lay, of c r] s1(10)[of c r] by simp
  have 1: "\<not> is_mine (state (cell_of ?b' (c, r)))"
    using mine[of "(c, r)"] forb[of "(c, r)"] pin s1(8) by (simp add: forbidden_def)
  have 2: "\<not> is_mine (state (cell_of ?b' q))" if "q \<in> set (neighbors ?b' c r)" for q
    using mine[of q] forb[of q] that set_neighbors_inb[of b0 c r] unfolding nb
    by (auto simp: forbidden_def)
  have 3: "is_revealed (state (cell_of ?b' (c, r)))"
    using check_win_cell_of_revealed[OF b2(1) _ b2(5)] pin same_layout_inb[OF b2(2)] by simp
  have 4: "\<not> game_over ?b'" "mines_placed ?b'"
    using b2(3,4) s1(6) Board_fresh(6)[OF assms(1)] by simp_all
  from b1(7) 1 2 3 4 show ?thesis by blast
qed

theorem C3_first_reveal_safe_witness:
  "is_shuffle rev \<and>
   (\<exists>b0. Board 5 1 1 = Some b0 \<and> is_inbounds b0 4 0
      \<and> (\<exists>b'. reveal rev b0 4 0 = Some b' \<and> mines_placed b' \<and> \<not> game_over b'
           \<and> \<not> is_mine (state (cell_of b' (4, 0)))
           \<and> (\<forall>q \<in> set (neighbors b' 4 0). \<not> is_mine (state (cell_of b' q)))
           \<and> is_revealed (state (cell_of b' (4, 0)))))"
proof -
  obtain b0 where b0: "Board 5 1 1 = Some b0" by (simp add: Board_def)
  then have inb: "is_inbounds b0 4 0" by (auto simp: Board_def is_inbounds_def)
  from C3_first_reveal_safe [OF b0 is_shuffle_rev inb] b0 inb is_shuffle_rev
  show ?thesis by blast
qed

section \<open>The number of mines\<close>

text \<open>
  C7: on a board constructed with \<open>cols > 0\<close>, \<open>rows > 0\<close> and
  \<open>0 \<le> mines \<le> cols * rows - 9\<close>, \<^verbatim>\<open>place_mines\<close> returns, for any anchor and any
  outcome of the shuffle, a board on which exactly \<open>mines\<close> cells are mines; and every
  sequence of \<^verbatim>\<open>reveal\<close> and \<^verbatim>\<open>toggle_flag\<close> calls on that board returns a board with
  the same mine cells. \<^verbatim>\<open>reveal\<close> places the mines only for an in-bounds target, and
  a board has one only when \<open>cols > 0\<close> and \<open>rows > 0\<close>; the rest of that first
  \<^verbatim>\<open>reveal\<close> is the first call of the sequence (\<open>reveal_lazy\<close>).
\<close>

theorem C7_mine_count:
  assumes "0 < w" and "0 < h" and "0 \<le> m" and "m \<le> w * h - 9"
    and "is_shuffle shuffle" and "Board w h m = Some b0"
  shows "\<exists>b1. place_mines shuffle b0 sc sr = Some b1
           \<and> int (length (filter (\<lambda>cl. is_mine (state cl)) (cells b1))) = m
           \<and> (\<forall>acts. \<exists>b'. play shuffle' b1 acts = Some b'
                 \<and> map (\<lambda>cl. is_mine (state cl)) (cells b') = map (\<lambda>cl. is_mine (state cl)) (cells b1))"
proof -
  note wf0 = Board_wf[OF assms(6)]
  note f0 = Board_fresh[OF assms(6)]
  let ?mp = "mine_positions shuffle b0 sc sr"
  from place_mines_inb[OF wf0 assms(5), of sc sr] obtain b1 where b1:
    "place_mines shuffle b0 sc sr = Some b1" "wf_board b1"
    "b1 = b0\<lparr>cells := cells b1, mines_placed := True\<rparr>"
    "\<forall>q \<in> inb_set b0. is_mine (state (cell_of b1 q)) = (is_mine (state (cell_of b0 q)) \<or> q \<in> set ?mp)"
    by blast
  note s1 = placed_scalars[OF b1(3)]
  have "{q \<in> inb_set b1. is_mine (state (cell_of b1 q))} = set ?mp"
    using b1(4) Board_fresh_cell[OF assms(6)] mine_positions_subset[OF assms(5), of b0 sc sr]
    by (auto simp: s1(8) CellState_def)
  then have "length (filter (\<lambda>cl. is_mine (state cl)) (cells b1)) = length ?mp"
    by (simp add: count_cells[OF b1(2)] distinct_card[OF distinct_mine_positions[OF assms(5)]])
  moreover have "int (length ?mp) = m"
    using length_mine_positions[OF assms(5), of b0 sc sr] assms(1-4) f0(1-3) by simp
  ultimately have cnt: "int (length (filter (\<lambda>cl. is_mine (state cl)) (cells b1))) = m"
    by simp
  have "\<exists>b'. play shuffle' b1 acts = Some b'
          \<and> map (\<lambda>cl. is_mine (state cl)) (cells b') = map (\<lambda>cl. is_mine (state cl)) (cells b1)"
    for acts
    using play_placed[OF b1(2) s1(4), of shuffle' acts] by (auto dest: same_layout_mines)
  with b1(1) cnt show ?thesis by blast
qed

theorem C7_mine_count_witness:
  "(0::int) < 10 \<and> (0::int) < 1 \<and> (0::int) \<le> 1 \<and> (1::int) \<le> 10 * 1 - 9 \<and> is_shuffle rev
   \<and> (\<exists>b0 b1. Board 10 1 1 = Some b0 \<and> place_mines rev b0 9 0 = Some b1
         \<and> int (length (filter (\<lambda>cl. is_mine (state cl)) (cells b1))) = 1
         \<and> (\<exists>b'. play rev b1 [Reveal 9 0, Toggle_flag 0 0, Reveal 0 0] = Some b'
               \<and> map (\<lambda>cl. is_mine (state cl)) (cells b') = map (\<lambda>cl. is_mine (state cl)) (cells b1)))"
proof -
  obtain b0 where b0: "Board 10 1 1 = Some b0" by (simp add: Board_def)
  have h: "(0::int) < 10" "(0::int) < 1" "(0::int) \<le> 1" "(1::int) \<le> 10 * 1 - 9" by simp_all
  from C7_mine_count [OF h is_shuffle_rev b0, of 9 0 rev] b0 h is_shuffle_rev
  show ?thesis by blast
qed

section \<open>Win\<close>



section \<open>Win and loss together\<close>

text \<open>
  C6 as stated fails: \<^verbatim>\<open>reveal\<close> has no guard on \<^verbatim>\<open>win\<close>. On \<^verbatim>\<open>Board(10, 1, 1)\<close>, when the
  shuffle leaves the pool in its order, \<^verbatim>\<open>reveal(9, 0)\<close> places the mine at (0, 0),
  reveals the nine other cells and sets \<^verbatim>\<open>win\<close>; \<^verbatim>\<open>reveal(0, 0)\<close> then hits the mine
  and sets \<^verbatim>\<open>game_over\<close>, and \<^verbatim>\<open>win\<close> stays set.
\<close>

theorem C6_counterexample:
  "map_option win (new_game id 10 1 1 [Reveal 9 0, Reveal 0 0]) = Some True
   \<and> map_option game_over (new_game id 10 1 1 [Reveal 9 0, Reveal 0 0]) = Some True"
  by (simp add: new_game_def eval_defs)

text \<open>
  C6, amended: for every constructed board and every sequence of \<^verbatim>\<open>reveal\<close> and
  \<^verbatim>\<open>toggle_flag\<close> calls made by a caller that stops calling once \<^verbatim>\<open>win\<close> is set, all
  the calls return and \<^verbatim>\<open>win\<close> and \<^verbatim>\<open>game_over\<close> are never both true.
\<close>

theorem C6_exclusive_until_win:
  assumes "Board w h m = Some b0" and "is_shuffle shuffle"
  shows "\<exists>b'. play_to_win shuffle b0 acts = Some b' \<and> \<not> (win b' \<and> game_over b')"
  using play_to_win_exclusive[OF Board_wf[OF assms(1)] assms(2), of acts] Board_fresh(7)[OF assms(1)]
  by simp

theorem C6_exclusive_until_win_witness:
  "is_shuffle id
   \<and> (\<exists>b0. Board 10 1 1 = Some b0
        \<and> (\<exists>b'. play_to_win id b0 [Reveal 9 0, Reveal 0 0] = Some b' \<and> \<not> (win b' \<and> game_over b')))"
proof -
  obtain b0 where b0: "Board 10 1 1 = Some b0" by (simp add: Board_def)
  have s: "is_shuffle id" by (simp add: is_shuffle_def)
  from C6_exclusive_until_win [OF b0 s, of "[Reveal 9 0, Reveal 0 0]"] b0 s
  show ?thesis by blast
qed

section \<open>Flood fill\<close>

text \<open>
  C4 as stated fails where the border of the region holds a cell that an earlier call
  has revealed: it belongs to the region's border and is not newly revealed. On the
  board \<open>row_board\<close> the cell (3, 0), next to the mine, was revealed on its own by
  \<^verbatim>\<open>reveal(3, 0)\<close>. The target (5, 0) is in bounds, not revealed, not flagged, not a
  mine, and has \<^verbatim>\<open>adjacent == 0\<close>; its region is (4, 0) to (9, 0), and (3, 0) is in
  the border of the region; \<^verbatim>\<open>reveal(5, 0)\<close> newly reveals (4, 0) to (9, 0) only.
\<close>

theorem C4_counterexample:
  "new_game id 10 1 1 [Reveal 0 0, Reveal 3 0] = Some row_board
   \<and> mines_placed row_board \<and> is_inbounds row_board 5 0
   \<and> \<not> is_revealed (state (cell_of row_board (5, 0)))
   \<and> \<not> is_flagged (state (cell_of row_board (5, 0)))
   \<and> \<not> is_mine (state (cell_of row_board (5, 0)))
   \<and> adjacent (state (cell_of row_board (5, 0))) = 0
   \<and> reveal id row_board 5 0 = Some row_board_after
   \<and> (3, 0) \<in> region row_board (5, 0) \<union> border row_board (5, 0)
   \<and> (3, 0) \<notin> newly_revealed row_board row_board_after"
proof -
  have c: "cell_of row_board (5, 0) = demo_cell 5 False False 0"
    "cell_of row_board (4, 0) = demo_cell 4 False False 0"
    "cell_of row_board (3, 0) = demo_cell 3 False True 1"
    by (simp_all add: cell_of_def index_def row_board_def)
  have n: "(4, 0) \<in> set (neighbors row_board 5 0)" "(3, 0) \<in> set (neighbors row_board 4 0)"
    by (simp_all add: neighbors_iff is_inbounds_def row_board_def)
  have "zero_cell row_board (4, 0)"
    by (simp add: zero_cell_def c demo_cell_def)
  with n(1) have "(4, 0) \<in> region row_board (5, 0)"
    using region.grow[OF region.target, of "(4, 0)" row_board "(5, 0)"] by simp
  with n(2) have "(3, 0) \<in> border row_board (5, 0)"
    unfolding border_def by (auto simp: c demo_cell_def intro!: bexI[of _ "(4, 0)"])
  moreover have "(3, 0) \<notin> newly_revealed row_board row_board_after"
    by (simp add: newly_revealed_def c demo_cell_def)
  moreover have "mines_placed row_board" "is_inbounds row_board 5 0"
    by (simp_all add: row_board_def is_inbounds_def)
  ultimately show ?thesis
    using row_board_played row_board_revealed by (simp add: c demo_cell_def)
qed

text \<open>
  C4, amended: on every board with the mines placed on which the cell list matches the
  dimensions, \<^verbatim>\<open>revealed_count\<close> is the number of revealed cells without a mine
  (\<open>count_inv\<close>) and every revealed zero cell has only revealed, mine or flagged
  neighbours (\<open>closed_inv\<close>), with or without flagged cells, and for every in-bounds
  target that is not revealed, not flagged and not a mine, \<^verbatim>\<open>reveal\<close> returns. If the
  target has \<^verbatim>\<open>adjacent > 0\<close>, the target is the one newly revealed cell. If it has
  \<^verbatim>\<open>adjacent == 0\<close>, the newly revealed cells are exactly the cells of the target's
  region of zero cells and of the border of that region that were not revealed before
  the call. In both cases \<^verbatim>\<open>revealed_count\<close> grows by the number of newly revealed
  cells. Every observable board meets the three conditions (\<open>reachable_wf\<close>,
  \<open>reachable_invs\<close>).
\<close>

theorem C4_flood_fill:
  assumes "wf_board b" and "mines_placed b" and "count_inv b" and "closed_inv b"
    and "is_inbounds b c r"
    and "\<not> is_revealed (state (cell_of b (c, r)))" and "\<not> is_flagged (state (cell_of b (c, r)))"
    and "\<not> is_mine (state (cell_of b (c, r)))"
  shows "\<exists>b'. reveal shuffle b c r = Some b'
           \<and> (0 < adjacent (state (cell_of b (c, r))) \<longrightarrow> newly_revealed b b' = {(c, r)})
           \<and> (adjacent (state (cell_of b (c, r))) = 0 \<longrightarrow>
                newly_revealed b b' =
                  (region b (c, r) \<union> border b (c, r)) - {q. is_revealed (state (cell_of b q))})
           \<and> revealed_count b' = revealed_count b + int (card (newly_revealed b b'))"
proof -
  have op: "openable b (c, r)" using assms(6-8) by (simp add: openable_def)
  have t: "(c, r) \<in> inb_set b" using assms(5) by (simp add: inb_set_iff)
  from reveal_fill[OF assms(1-3,5) op, of shuffle] obtain b' where b':
    "reveal shuffle b c r = Some b'" "newly_revealed b b' = fill b {(c, r)}"
    "revealed_count b' = revealed_count b + int (card (fill b {(c, r)}))"
    by blast
  have 1: "newly_revealed b b' = {(c, r)}" if "0 < adjacent (state (cell_of b (c, r)))"
    using that fill_single[OF op] b'(2) by (simp add: expanding_def)
  have 2: "newly_revealed b b' =
      (region b (c, r) \<union> border b (c, r)) - {q. is_revealed (state (cell_of b q))}"
    if "adjacent (state (cell_of b (c, r))) = 0"
  proof -
    have "expanding b (c, r)" using op that by (simp add: expanding_def)
    with fill_region[OF assms(4) t] b'(2) show ?thesis by simp
  qed
  from b' 1 2 show ?thesis by auto
qed

theorem C4_flood_fill_witness:
  "wf_board demo_board \<and> mines_placed demo_board \<and> count_inv demo_board \<and> closed_inv demo_board
   \<and> is_inbounds demo_board 0 0 \<and> \<not> is_revealed (state (cell_of demo_board (0, 0)))
   \<and> \<not> is_flagged (state (cell_of demo_board (0, 0))) \<and> \<not> is_mine (state (cell_of demo_board (0, 0)))
   \<and> adjacent (state (cell_of demo_board (0, 0))) = 0
   \<and> (\<exists>b'. reveal rev demo_board 0 0 = Some b'
         \<and> newly_revealed demo_board b' =
             (region demo_board (0, 0) \<union> border demo_board (0, 0))
             - {q. is_revealed (state (cell_of demo_board q))}
         \<and> revealed_count b' = 2 + int (card (newly_revealed demo_board b')))
   \<and> is_inbounds demo_board 1 0 \<and> \<not> is_revealed (state (cell_of demo_board (1, 0)))
   \<and> \<not> is_flagged (state (cell_of demo_board (1, 0))) \<and> \<not> is_mine (state (cell_of demo_board (1, 0)))
   \<and> 0 < adjacent (state (cell_of demo_board (1, 0)))
   \<and> (\<exists>b'. reveal rev demo_board 1 0 = Some b'
         \<and> newly_revealed demo_board b' = {(1, 0)} \<and> revealed_count b' = 3)
   \<and> wf_board flag_board \<and> mines_placed flag_board \<and> count_inv flag_board \<and> closed_inv flag_board
   \<and> is_inbounds flag_board 0 0 \<and> \<not> is_revealed (state (cell_of flag_board (0, 0)))
   \<and> \<not> is_flagged (state (cell_of flag_board (0, 0))) \<and> \<not> is_mine (state (cell_of flag_board (0, 0)))
   \<and> adjacent (state (cell_of flag_board (0, 0))) = 0
   \<and> is_flagged (state (cell_of flag_board (1, 0)))
   \<and> (1, 0) \<in> set (neighbors flag_board 0 0)
   \<and> (\<exists>b'. reveal rev flag_board 0 0 = Some b'
         \<and> newly_revealed flag_board b' =
             (region flag_board (0, 0) \<union> border flag_board (0, 0))
             - {q. is_revealed (state (cell_of flag_board q))}
         \<and> \<not> is_revealed (state (cell_of b' (1, 0)))
         \<and> revealed_count b' = 3)"
proof -
  note w = reachable_wf[OF demo_board_reachable]
  from reachable_invs[OF demo_board_reachable]
  have i: "count_inv demo_board" "closed_inv demo_board" by simp_all
  have m: "mines_placed demo_board" "is_inbounds demo_board 0 0" "is_inbounds demo_board 1 0"
    "revealed_count demo_board = 2"
    by (simp_all add: demo_board_def is_inbounds_def)
  have c: "cell_of demo_board (0, 0) = demo_cell 0 False False 0"
    "cell_of demo_board (1, 0) = demo_cell 1 False False 1"
    by (simp_all add: cell_of_def index_def demo_board_def)
  have s: "\<not> is_revealed (state (cell_of demo_board (0, 0)))"
    "\<not> is_flagged (state (cell_of demo_board (0, 0)))" "\<not> is_mine (state (cell_of demo_board (0, 0)))"
    "adjacent (state (cell_of demo_board (0, 0))) = 0"
    "\<not> is_revealed (state (cell_of demo_board (1, 0)))"
    "\<not> is_flagged (state (cell_of demo_board (1, 0)))" "\<not> is_mine (state (cell_of demo_board (1, 0)))"
    "0 < adjacent (state (cell_of demo_board (1, 0)))"
    by (simp_all add: c demo_cell_def)
  from C4_flood_fill [OF w m(1) i m(2) s(1-3), of rev] s(4) m(4)
  have 1: "\<exists>b'. reveal rev demo_board 0 0 = Some b'
         \<and> newly_revealed demo_board b' =
             (region demo_board (0, 0) \<union> border demo_board (0, 0))
             - {q. is_revealed (state (cell_of demo_board q))}
         \<and> revealed_count b' = 2 + int (card (newly_revealed demo_board b'))"
    by auto
  from C4_flood_fill [OF w m(1) i m(3) s(5-7), of rev] s(8) m(4)
  have 2: "\<exists>b'. reveal rev demo_board 1 0 = Some b'
         \<and> newly_revealed demo_board b' = {(1, 0)} \<and> revealed_count b' = 3"
    by auto
  \<comment> \<open>the board with a flag: the flagged neighbour of the target stays unrevealed\<close>
  have fm: "is_inbounds flag_board 0 0" "revealed_count flag_board = 2"
    "(1, 0) \<in> set (neighbors flag_board 0 0)"
    by (simp_all add: flag_board_def is_inbounds_def neighbors_iff)
  have fs: "\<not> is_revealed (state (cell_of flag_board (0, 0)))"
    "\<not> is_flagged (state (cell_of flag_board (0, 0)))" "\<not> is_mine (state (cell_of flag_board (0, 0)))"
    "adjacent (state (cell_of flag_board (0, 0))) = 0"
    by (simp_all add: flag_board_cells demo_cell_def)
  from C4_flood_fill [OF flag_board_invs fm(1) fs(1-3), of rev] fs(4) fm(2)
  obtain b' where b': "reveal rev flag_board 0 0 = Some b'"
    "newly_revealed flag_board b' =
       (region flag_board (0, 0) \<union> border flag_board (0, 0))
       - {q. is_revealed (state (cell_of flag_board q))}"
    "revealed_count b' = 2 + int (card (newly_revealed flag_board b'))"
    by auto
  have r: "reveal rev flag_board 0 0 =
      Some (flag_board\<lparr>cells := (cells flag_board)[0 := demo_cell 0 False True 0],
              revealed_count := 3\<rparr>)"
    by (simp add: eval_defs flag_board_def demo_cell_def)
  with b'(1) have "\<not> is_revealed (state (cell_of b' (1, 0)))" "revealed_count b' = 3"
    by (auto simp: cell_of_def index_def flag_board_def)
  with b'(1,2) have 3: "\<exists>b'. reveal rev flag_board 0 0 = Some b'
         \<and> newly_revealed flag_board b' =
             (region flag_board (0, 0) \<union> border flag_board (0, 0))
             - {q. is_revealed (state (cell_of flag_board q))}
         \<and> \<not> is_revealed (state (cell_of b' (1, 0)))
         \<and> revealed_count b' = 3"
    by blast
  from 1 2 3 w i m(1-3) s flag_board_invs fm(1,3) fs flag_board_cells(2) show ?thesis
    by blast
qed

end
